theory Spec2Isabelle
  imports Complex_Main "HOL-Library.AList"
begin

section \<open>Python values used by the book generator\<close>

text \<open>
  Python strings are modelled as \<open>string\<close>: a list of 8-bit characters, read as the
  code points 0..255 (Latin-1). Python integers are \<open>int\<close>, list lengths \<open>nat\<close>, and the
  floats that only carry configuration values (temperatures, delays) are \<open>rat\<close>.
  An exception is a value of \<open>py_error\<close>; a function that can raise returns
  \<open>py_error + 'a\<close> with \<open>Inl\<close> for the exception. Integers are unbounded, as in
  Python. The interpreter's limit on the number of digits that \<open>int()\<close> and \<open>str()\<close>
  convert (4300 by default since Python 3.11) is modelled where \<open>parse_outline\<close> converts
  what it read in the outline (\<open>py_int\<close>, \<open>py_str_nat\<close>); the numbers that are formatted
  into prompts and default titles are taken to be within it. Delays and temperatures
  are exact rationals: the rounding of binary floats, infinities and NaN are outside
  the model.
\<close>

datatype py_error =
    IndexError
  | ZeroDivisionError
  | ValueError string
  | OverflowError
  | OSError
  | BackendError string
  | AllProvidersFailed "py_error option"

text \<open>\<open>str.isspace\<close> on one code point below 256: TAB, LF, VT, FF, CR, FS, GS, RS, US,
  space, NEL and the no-break space.\<close>

definition is_space :: "char \<Rightarrow> bool" where
  "is_space c =
     (let n = (of_char c :: nat)
      in (9 \<le> n \<and> n \<le> 13) \<or> (28 \<le> n \<and> n \<le> 32) \<or> n = 133 \<or> n = 160)"

text \<open>\<open>s.split()\<close> with no separator: the maximal runs of non-whitespace characters.
  The first argument is the word being read.\<close>

fun split_ws :: "string \<Rightarrow> string \<Rightarrow> string list" where
  "split_ws w [] = (if w = [] then [] else [w])"
| "split_ws w (c # cs) =
     (if is_space c then (if w = [] then split_ws [] cs else w # split_ws [] cs)
      else split_ws (w @ [c]) cs)"

definition py_split :: "string \<Rightarrow> string list" where
  "py_split s = split_ws [] s"

text \<open>\<open>sep.join(xs)\<close>.\<close>

fun py_join :: "string \<Rightarrow> string list \<Rightarrow> string" where
  "py_join sep [] = []"
| "py_join sep [x] = x"
| "py_join sep (x # y # ys) = x @ sep @ py_join sep (y # ys)"

text \<open>Slice indices as Python clamps them: a negative index counts from the end, and
  both ends are clamped to \<open>0..len\<close>. \<open>py_slice xs i j\<close> is \<open>xs[i:j]\<close>.\<close>

definition slice_index :: "nat \<Rightarrow> int \<Rightarrow> nat" where
  "slice_index n i = (if i < 0 then nat (max 0 (int n + i)) else min (nat i) n)"

definition py_slice :: "'a list \<Rightarrow> int \<Rightarrow> int \<Rightarrow> 'a list" where
  "py_slice xs i j =
     (let a = slice_index (length xs) i; b = slice_index (length xs) j
      in take (b - a) (drop a xs))"

text \<open>\<open>xs[:j]\<close> and \<open>xs[i:]\<close>.\<close>

definition py_slice_to :: "'a list \<Rightarrow> int \<Rightarrow> 'a list" where
  "py_slice_to xs j = take (slice_index (length xs) j) xs"

definition py_slice_from :: "'a list \<Rightarrow> int \<Rightarrow> 'a list" where
  "py_slice_from xs i = drop (slice_index (length xs) i) xs"

text \<open>\<open>str(n)\<close> for an integer, as an f-string formats it.\<close>

definition digit_char :: "nat \<Rightarrow> char" where
  "digit_char d = char_of (48 + d)"

fun str_nat :: "nat \<Rightarrow> string" where
  "str_nat n = (if n < 10 then [digit_char n] else str_nat (n div 10) @ [digit_char (n mod 10)])"

text \<open>\<open>str(n)\<close> under the limit on digits: \<open>ValueError\<close> for a number of more than
  4300 digits.\<close>

definition int_max_str_digits :: nat where
  "int_max_str_digits = 4300"

definition py_str_nat :: "nat \<Rightarrow> py_error + string" where
  "py_str_nat n =
     (if int_max_str_digits < length (str_nat n)
      then Inl (ValueError ''Exceeds the limit (4300 digits) for integer string conversion'')
      else Inr (str_nat n))"

definition str_int :: "int \<Rightarrow> string" where
  "str_int i = (if i < 0 then CHR ''-'' # str_nat (nat (- i)) else str_nat (nat i))"

section \<open>core/agent.py: Agent.generate\<close>

text \<open>
  The language-model provider handed to an agent is outside the program: it is an oracle
  \<open>llm\<close> that answers the \<open>k\<close>-th call (counting from 0) with a text or an exception.
  The agent's own state is its settings and its prompt log (the prompts, without the
  time stamps); the list of calls sent to the provider is threaded beside it, so that
  calls can be counted.
\<close>

record llm_call =
  lc_prompt :: string
  lc_max_tokens :: "int option"
  lc_temperature :: "rat option"
  lc_provider :: string

type_synonym llm = "nat \<Rightarrow> llm_call \<Rightarrow> py_error + string"

record agent =
  settings_temperature :: "rat option"
  settings_provider :: "string option"
  save_prompts :: bool
  prompt_log :: "string list"

type_synonym agent_state = "agent \<times> llm_call list"

definition generate ::
  "llm \<Rightarrow> agent_state \<Rightarrow> string \<Rightarrow> int option \<Rightarrow> rat option \<Rightarrow> string option
     \<Rightarrow> (py_error + string) \<times> agent_state" where
  "generate provider_llm st prompt max_tokens temperature provider =
     (let a = fst st; calls = snd st;
          temperature' = (case temperature of None \<Rightarrow> settings_temperature a | Some t \<Rightarrow> Some t);
          provider' = (case provider of
                         None \<Rightarrow> (case settings_provider a of None \<Rightarrow> ''default'' | Some p \<Rightarrow> p)
                       | Some p \<Rightarrow> p);
          a' = (if save_prompts a then a\<lparr>prompt_log := prompt_log a @ [prompt]\<rparr> else a);
          call = \<lparr>lc_prompt = prompt, lc_max_tokens = max_tokens,
                  lc_temperature = temperature', lc_provider = provider'\<rparr>
      in (provider_llm (length calls) call, (a', calls @ [call])))"

section \<open>agents/writer.py: WriterAgent\<close>

record chapter_info =
  ci_chapter_num :: "int option"
  ci_title :: "string option"
  ci_summary :: "string option"
  ci_word_count :: "int option"

text \<open>The context block of one previous chapter (the body of the loop over
  \<open>previous_chapters[-2:]\<close>).\<close>

definition prev_chapter_context :: "int \<Rightarrow> string \<Rightarrow> string" where
  "prev_chapter_context prev_idx prev_chapter =
     (let prev_words = py_split prev_chapter;
          start_context = (if length prev_words > 200
                           then py_join '' '' (py_slice_to prev_words 200) else prev_chapter);
          end_context = (if length prev_words > 400
                         then py_join '' '' (py_slice_from prev_words (- 200)) else [])
      in ''Chapter '' @ str_int prev_idx @ '' beginning: '' @ start_context @ ''\<newline>\<newline>'' @
         (if end_context \<noteq> []
          then ''Chapter '' @ str_int prev_idx @ '' ending: '' @ end_context @ ''\<newline>\<newline>''
          else []))"

definition prev_chapters_context :: "int \<Rightarrow> string list \<Rightarrow> string" where
  "prev_chapters_context chapter_num previous_chapters =
     (if previous_chapters = [] then []
      else
        (let recent = py_slice_from previous_chapters (- 2)
         in ''\<newline>\<newline>Context from previous chapters (for continuity):\<newline>'' @
            concat (map (\<lambda>i. prev_chapter_context
                                 (chapter_num - int (length recent) + int i) (recent ! i))
                        [0 ..< length recent])))"

definition chapter_prompt ::
  "int \<Rightarrow> string \<Rightarrow> string \<Rightarrow> int \<Rightarrow> string \<Rightarrow> string \<Rightarrow> string \<Rightarrow> string" where
  "chapter_prompt chapter_num chapter_title chapter_summary target_word_count
       character_profiles writing_style context =
     ''\<newline>        Write Chapter '' @ str_int chapter_num @ '': '' @ [CHR 0x22] @ chapter_title @
     [CHR 0x22] @ '' for a story in the '' @ writing_style @
     '' style.\<newline>        \<newline>        Chapter Summary:\<newline>        '' @
     chapter_summary @
     ''\<newline>        \<newline>        Character Information (reference for consistency):\<newline>        '' @
     py_slice_to character_profiles 2000 @
     ''...\<newline>        '' @
     context @
     ''\<newline>        \<newline>        Guidelines:\<newline>        - Target word count: Approximately '' @
     str_int target_word_count @
     '' words\<newline>        - Writing style: '' @
     writing_style @
     ''\<newline>        - Include vivid description, engaging dialogue, and meaningful character development\<newline>        - Focus on showing rather than telling\<newline>        - Maintain consistent character voices based on their profiles\<newline>        - Advance the plot as outlined in the chapter summary\<newline>        - End the chapter in a way that encourages the reader to continue\<newline>        \<newline>        Begin the chapter directly with the narrative, without including the chapter number or title.\<newline>        ''"

definition continuation_prompt :: "int \<Rightarrow> string \<Rightarrow> string" where
  "continuation_prompt words_per_chunk previous =
     ''\<newline>            Continue the following chapter, adding approximately '' @
     str_int words_per_chunk @
     '' more words.\<newline>            Maintain the same style, tone, and character voices.\<newline>            Pick up exactly where the previous section left off without any recapping or transition phrases.\<newline>            \<newline>            Previous section:\<newline>            '' @
     py_slice_from previous (- 500) @
     ''\<newline>            \<newline>            Continue directly from this point:\<newline>            ''"

text \<open>
  The loop \<open>for i in range(2, max_chunks + 1)\<close> of \<open>_write_long_chapter\<close>; the first
  argument after the target is the number of iterations left. The loop state is
  \<open>(chunks, total_words, words_per_chunk)\<close>; \<open>chunks\<close> already holds the first chunk,
  so \<open>chunks[-1]\<close> is \<open>last chunks\<close>. An exception of \<open>generate\<close> leaves the loop.
\<close>

fun long_chapter_loop ::
  "llm \<Rightarrow> int \<Rightarrow> nat \<Rightarrow> string list \<times> int \<times> int \<Rightarrow> agent_state
     \<Rightarrow> (py_error + string list) \<times> agent_state" where
  "long_chapter_loop provider_llm target_word_count 0 (chunks, total_words, words_per_chunk) st =
     (Inr chunks, st)"
| "long_chapter_loop provider_llm target_word_count (Suc n) (chunks, total_words, words_per_chunk) st =
     (if total_words \<ge> target_word_count then (Inr chunks, st)
      else
        (let remaining_words = target_word_count - total_words;
             words_per_chunk' = (if remaining_words < 1000 then remaining_words else words_per_chunk);
             prompt = continuation_prompt words_per_chunk' (last chunks)
         in case generate provider_llm st prompt None (Some (7 / 10)) None of
              (Inl e, st') \<Rightarrow> (Inl e, st')
            | (Inr next_chunk, st') \<Rightarrow>
                long_chapter_loop provider_llm target_word_count n
                  (chunks @ [next_chunk],
                   total_words + int (length (py_split next_chunk)),
                   words_per_chunk') st'))"

definition write_long_chapter ::
  "llm \<Rightarrow> agent_state \<Rightarrow> string \<Rightarrow> int \<Rightarrow> int \<Rightarrow> (py_error + string) \<times> agent_state" where
  "write_long_chapter provider_llm st initial_prompt target_word_count max_chunks =
     (if max_chunks = 0 then (Inl ZeroDivisionError, st)
      else
        (let words_per_chunk = min 2500 (target_word_count div max_chunks)
         in case generate provider_llm st initial_prompt None (Some (7 / 10)) None of
              (Inl e, st') \<Rightarrow> (Inl e, st')
            | (Inr first_chunk, st') \<Rightarrow>
                (case long_chapter_loop provider_llm target_word_count (nat (max_chunks - 1))
                        ([first_chunk], int (length (py_split first_chunk)), words_per_chunk) st' of
                   (Inl e, st'') \<Rightarrow> (Inl e, st'')
                 | (Inr chunks, st'') \<Rightarrow> (Inr (py_join ''\<newline>\<newline>'' chunks), st''))))"

text \<open>\<open>chapter_info.get("word_count", 3000)\<close>.\<close>

definition target_of :: "chapter_info \<Rightarrow> int" where
  "target_of info = (case ci_word_count info of None \<Rightarrow> 3000 | Some w \<Rightarrow> w)"

text \<open>The prompt that \<open>write_chapter\<close> builds before it generates anything.\<close>

definition write_chapter_prompt :: "chapter_info \<Rightarrow> string list \<Rightarrow> string \<Rightarrow> string \<Rightarrow> string" where
  "write_chapter_prompt info previous_chapters character_profiles writing_style =
     (let chapter_num = (case ci_chapter_num info of None \<Rightarrow> 1 | Some n \<Rightarrow> n);
          chapter_title = (case ci_title info of
                             None \<Rightarrow> ''Chapter '' @ str_int chapter_num | Some t \<Rightarrow> t);
          chapter_summary = (case ci_summary info of None \<Rightarrow> [] | Some s \<Rightarrow> s);
          target_word_count = target_of info;
          context = prev_chapters_context chapter_num previous_chapters
      in chapter_prompt chapter_num chapter_title chapter_summary target_word_count
           character_profiles writing_style context)"

definition write_chapter ::
  "llm \<Rightarrow> agent_state \<Rightarrow> chapter_info \<Rightarrow> string list \<Rightarrow> string \<Rightarrow> string
     \<Rightarrow> (py_error + string) \<times> agent_state" where
  "write_chapter provider_llm st info previous_chapters character_profiles writing_style =
     (let target_word_count = target_of info;
          prompt = write_chapter_prompt info previous_chapters character_profiles writing_style
      in if target_word_count > 3000
         then write_long_chapter provider_llm st prompt target_word_count 3
         else generate provider_llm st prompt None (Some (7 / 10)) None)"

text \<open>The number of words of a provider answer (0 for an exception), and the words
  accumulated over the \<open>k\<close> answers to the calls \<open>n0, n0 + 1, ...\<close> of a call list.\<close>

definition words_of :: "py_error + string \<Rightarrow> int" where
  "words_of r = (case r of Inl e \<Rightarrow> 0 | Inr s \<Rightarrow> int (length (py_split s)))"

fun acc_words :: "llm \<Rightarrow> llm_call list \<Rightarrow> nat \<Rightarrow> nat \<Rightarrow> int" where
  "acc_words provider_llm calls n0 0 = 0"
| "acc_words provider_llm calls n0 (Suc k) =
     words_of (provider_llm n0 (calls ! n0)) + acc_words provider_llm calls (Suc n0) k"

section \<open>core/llm_provider.py: LLMProvider\<close>

text \<open>
  \<open>self.providers\<close> is a dictionary from provider name to its entry, in insertion order
  (\<open>_setup_providers\<close> registers \<open>openai\<close>, then \<open>gemini\<close>); only the entry's
  \<open>initialized\<close> flag is read by \<open>generate_text\<close>. The configuration holds the default
  provider, the rate-limit settings and the per-provider settings, each optional.
\<close>

type_synonym registry = "(string \<times> bool) list"

record provider_settings =
  ps_max_tokens :: "int option"
  ps_default_temperature :: "rat option"

record llm_config =
  cfg_default_provider :: "string option"
  cfg_initial_delay :: "rat option"
  cfg_max_retries :: "int option"
  cfg_max_delay :: "rat option"
  cfg_providers :: "(string \<times> provider_settings) list"

text \<open>\<open>self.providers.get(p, {}).get("initialized", False)\<close>.\<close>

definition initialized :: "registry \<Rightarrow> string \<Rightarrow> bool" where
  "initialized providers p = (case map_of providers p of None \<Rightarrow> False | Some b \<Rightarrow> b)"

text \<open>
  The backends (\<open>_generate_with_openai\<close>, \<open>_generate_with_gemini\<close>) are outside the
  program: an oracle answers the \<open>k\<close>-th attempt of one \<open>generate_text\<close> call with a text
  or an exception. The trace records the provider of every attempt (every pass through
  the \<open>try\<close> block) and the length of every sleep.
\<close>

record backend_call =
  bc_provider :: string
  bc_prompt :: string
  bc_max_tokens :: int
  bc_temperature :: rat

type_synonym backend = "nat \<Rightarrow> backend_call \<Rightarrow> py_error + string"

record gw_trace =
  attempts :: "string list"
  sleeps :: "rat list"

text \<open>
  The rest of the world of one \<open>generate_text\<close> call: the \<open>k\<close>-th draw of
  \<open>random.random()\<close>, and the longest sleep that the clock of the platform takes at the
  time of the call.
\<close>

record world =
  random_draw :: "nat \<Rightarrow> rat"
  longest_sleep :: rat

text \<open>\<open>random.uniform(a, b)\<close> is \<open>a + (b - a) * random.random()\<close>.\<close>

definition py_uniform :: "rat \<Rightarrow> rat \<Rightarrow> rat \<Rightarrow> rat" where
  "py_uniform a b r = a + (b - a) * r"

text \<open>
  \<open>time.sleep(secs)\<close>, \<open>None\<close> when it returns: the length is converted to nanoseconds
  in 64 bits (\<open>OverflowError\<close> when it does not fit), a negative length raises
  \<open>ValueError\<close>, and the system call refuses (\<open>OSError\<close>) a length beyond what the
  clock takes.
\<close>

definition py_sleep :: "rat \<Rightarrow> rat \<Rightarrow> py_error option" where
  "py_sleep longest secs =
     (if 2 ^ 63 \<le> \<bar>secs\<bar> * 10 ^ 9 then Some OverflowError
      else if secs < 0 then Some (ValueError ''sleep length must be non-negative'')
      else if longest < secs then Some OSError
      else None)"

record retry_env =
  re_call :: backend_call
  re_max_retries :: int
  re_max_delay :: rat

text \<open>The body of the \<open>try\<close> block: the backend of the current provider, or
  \<open>ValueError\<close> for a name that is neither \<open>openai\<close> nor \<open>gemini\<close>.\<close>

definition dispatch :: "backend \<Rightarrow> nat \<Rightarrow> backend_call \<Rightarrow> py_error + string" where
  "dispatch B k c =
     (if bc_provider c = ''openai'' then B k c
      else if bc_provider c = ''gemini'' then B k c
      else Inl (ValueError (''Unknown provider: '' @ bc_provider c)))"

text \<open>
  The loop \<open>while retries < max_retries\<close> ends in one of three ways: the backend
  returned a text, the retry budget is used up (\<open>break\<close>, or the loop condition), or
  \<open>time.sleep\<close> raised inside the \<open>except\<close> handler, which nothing catches. The result
  is how the loop ended, \<open>last_error\<close> and the trace.
\<close>

datatype loop_end = Returned string | Exhausted | Raised py_error

function retry_loop ::
  "backend \<Rightarrow> world \<Rightarrow> retry_env \<Rightarrow> int \<Rightarrow> rat \<Rightarrow> py_error option \<Rightarrow> gw_trace
     \<Rightarrow> loop_end \<times> py_error option \<times> gw_trace" where
  "retry_loop B W env retries delay last_error tr =
     (if retries < re_max_retries env then
        (let tr' = tr\<lparr>attempts := attempts tr @ [bc_provider (re_call env)]\<rparr>
         in case dispatch B (length (attempts tr)) (re_call env) of
              Inr text \<Rightarrow> (Returned text, last_error, tr')
            | Inl e \<Rightarrow>
                (let retries' = retries + 1
                 in if retries' = re_max_retries env then (Exhausted, Some e, tr')
                    else
                      (let jitter = py_uniform 0 (1 / 10 * delay)
                                      (random_draw W (length (sleeps tr')));
                           secs = delay + jitter
                       in case py_sleep (longest_sleep W) secs of
                            Some err \<Rightarrow> (Raised err, Some e, tr')
                          | None \<Rightarrow>
                              retry_loop B W env retries' (min (delay * 2) (re_max_delay env))
                                (Some e) (tr'\<lparr>sleeps := sleeps tr' @ [secs]\<rparr>))))
      else (Exhausted, last_error, tr))"
  by pat_completeness auto
termination
  by (relation "measure (\<lambda>(B, W, env, retries, delay, last_error, tr).
        nat (re_max_retries env - retries))")
    auto

declare retry_loop.simps [simp del]

text \<open>The fallback chain: the requested provider, then every initialized provider of the
  registry that is not in the chain yet.\<close>

fun build_chain :: "registry \<Rightarrow> string list \<Rightarrow> string list" where
  "build_chain [] providers_to_try = providers_to_try"
| "build_chain ((p, init) # ps) providers_to_try =
     build_chain ps (if p \<notin> set providers_to_try \<and> init then providers_to_try @ [p]
                     else providers_to_try)"

definition requested_provider :: "llm_config \<Rightarrow> string option \<Rightarrow> string" where
  "requested_provider cfg provider =
     (if provider = None \<or> provider = Some ''default''
      then (case cfg_default_provider cfg of None \<Rightarrow> ''openai'' | Some p \<Rightarrow> p)
      else the provider)"

definition providers_to_try :: "llm_config \<Rightarrow> registry \<Rightarrow> string option \<Rightarrow> string list" where
  "providers_to_try cfg providers provider =
     build_chain providers [requested_provider cfg provider]"

text \<open>The rate-limit settings with their defaults.\<close>

definition initial_delay_of :: "llm_config \<Rightarrow> rat" where
  "initial_delay_of cfg = (case cfg_initial_delay cfg of None \<Rightarrow> 1 | Some d \<Rightarrow> d)"

definition max_retries_of :: "llm_config \<Rightarrow> int" where
  "max_retries_of cfg = (case cfg_max_retries cfg of None \<Rightarrow> 5 | Some m \<Rightarrow> m)"

definition max_delay_of :: "llm_config \<Rightarrow> rat" where
  "max_delay_of cfg = (case cfg_max_delay cfg of None \<Rightarrow> 60 | Some d \<Rightarrow> d)"

text \<open>The provider-specific settings of one pass of the loop over the chain:
  \<open>max_tokens or provider_config.get("max_tokens", 4000)\<close> and
  \<open>temperature or provider_config.get("default_temperature", 0.7)\<close>, where \<open>or\<close> takes
  the default for \<open>None\<close> and for zero.\<close>

definition provider_env ::
  "llm_config \<Rightarrow> string \<Rightarrow> int option \<Rightarrow> rat option \<Rightarrow> string \<Rightarrow> retry_env" where
  "provider_env cfg prompt max_tokens temperature current_provider =
     (let provider_config = map_of (cfg_providers cfg) current_provider;
          default_tokens = (case provider_config of None \<Rightarrow> 4000
                            | Some pc \<Rightarrow> (case ps_max_tokens pc of None \<Rightarrow> 4000 | Some n \<Rightarrow> n));
          default_temperature = (case provider_config of None \<Rightarrow> 7 / 10
                            | Some pc \<Rightarrow> (case ps_default_temperature pc of None \<Rightarrow> 7 / 10 | Some t \<Rightarrow> t));
          current_max_tokens = (case max_tokens of None \<Rightarrow> default_tokens
                                | Some n \<Rightarrow> if n = 0 then default_tokens else n);
          current_temperature = (case temperature of None \<Rightarrow> default_temperature
                                 | Some t \<Rightarrow> if t = 0 then default_temperature else t)
      in \<lparr>re_call = \<lparr>bc_provider = current_provider, bc_prompt = prompt,
                      bc_max_tokens = current_max_tokens, bc_temperature = current_temperature\<rparr>,
          re_max_retries = max_retries_of cfg,
          re_max_delay = max_delay_of cfg\<rparr>)"

text \<open>The loop \<open>for current_provider in providers_to_try\<close>, ending in the final
  \<open>raise\<close> when no provider returned; an exception of \<open>time.sleep\<close> leaves the loop and
  the function at once.\<close>

fun try_providers ::
  "backend \<Rightarrow> world \<Rightarrow> llm_config \<Rightarrow> registry \<Rightarrow> string \<Rightarrow> int option \<Rightarrow> rat option
     \<Rightarrow> string list \<Rightarrow> py_error option \<Rightarrow> gw_trace \<Rightarrow> (py_error + string) \<times> gw_trace" where
  "try_providers B W cfg providers prompt max_tokens temperature [] last_error tr =
     (Inl (AllProvidersFailed last_error), tr)"
| "try_providers B W cfg providers prompt max_tokens temperature (current_provider # rest) last_error tr =
     (if \<not> initialized providers current_provider
      then try_providers B W cfg providers prompt max_tokens temperature rest last_error tr
      else
        (case retry_loop B W (provider_env cfg prompt max_tokens temperature current_provider) 0
                (initial_delay_of cfg) last_error tr of
           (Returned text, last_error', tr') \<Rightarrow> (Inr text, tr')
         | (Raised err, last_error', tr') \<Rightarrow> (Inl err, tr')
         | (Exhausted, last_error', tr') \<Rightarrow>
             try_providers B W cfg providers prompt max_tokens temperature rest last_error' tr'))"

definition generate_text ::
  "backend \<Rightarrow> world \<Rightarrow> llm_config \<Rightarrow> registry \<Rightarrow> string \<Rightarrow> string option \<Rightarrow> int option
     \<Rightarrow> rat option \<Rightarrow> (py_error + string) \<times> gw_trace" where
  "generate_text B W cfg providers prompt provider max_tokens temperature =
     try_providers B W cfg providers prompt max_tokens temperature
       (providers_to_try cfg providers provider) None \<lparr>attempts = [], sleeps = []\<rparr>"

text \<open>
  The delays of the first \<open>n\<close> sleeps of one retry loop: the initial delay, doubled
  after every sleep up to the maximal delay. A delay is slept through, whatever the
  jitter drawn, when it is not negative and a tenth more than it is within what
  \<open>time.sleep\<close> takes. One loop in which every attempt fails sleeps \<open>max_retries - 1\<close>
  times.
\<close>

fun backoff_delays :: "rat \<Rightarrow> rat \<Rightarrow> nat \<Rightarrow> rat list" where
  "backoff_delays delay max_delay 0 = []"
| "backoff_delays delay max_delay (Suc n) =
     delay # backoff_delays (min (delay * 2) max_delay) max_delay n"

definition sleep_accepted :: "rat \<Rightarrow> rat \<Rightarrow> bool" where
  "sleep_accepted longest delay =
     (0 \<le> delay \<and> 11 / 10 * delay \<le> longest \<and> 11 / 10 * delay * 10 ^ 9 < 2 ^ 63)"

definition sleeps_accepted :: "world \<Rightarrow> llm_config \<Rightarrow> bool" where
  "sleeps_accepted W cfg =
     list_all (sleep_accepted (longest_sleep W))
       (backoff_delays (initial_delay_of cfg) (max_delay_of cfg) (nat (max_retries_of cfg - 1)))"

text \<open>The draws of \<open>random.random()\<close> lie in the interval from 0 to 1, 1 excluded.\<close>

definition unit_draws :: "world \<Rightarrow> bool" where
  "unit_draws W = (\<forall>k. 0 \<le> random_draw W k \<and> random_draw W k < 1)"

text \<open>Concrete inputs for the examples below: a registry with both providers
  initialized, a backend that always raises, a backend whose \<open>openai\<close> calls raise while
  every other call returns, a world whose draws are all one half and whose clock takes
  sleeps of up to a million seconds, a configuration that only sets \<open>max_retries\<close>, and
  one that sets \<open>initial_delay\<close> as well.\<close>

definition two_providers :: registry where
  "two_providers = [(''openai'', True), (''gemini'', True)]"

definition backend_all_down :: backend where
  "backend_all_down k c = Inl (BackendError (''down: '' @ bc_provider c))"

definition backend_first_down :: backend where
  "backend_first_down k c =
     (if bc_provider c = ''openai'' then Inl (BackendError ''down'') else Inr ''text from gemini'')"

definition calm_world :: world where
  "calm_world = \<lparr>random_draw = (\<lambda>k. 1 / 2), longest_sleep = 1000000\<rparr>"

definition config_retries :: "int \<Rightarrow> llm_config" where
  "config_retries n = \<lparr>cfg_default_provider = None, cfg_initial_delay = None,
      cfg_max_retries = Some n, cfg_max_delay = None, cfg_providers = []\<rparr>"

definition config_delay :: "rat \<Rightarrow> int \<Rightarrow> llm_config" where
  "config_delay d n = \<lparr>cfg_default_provider = None, cfg_initial_delay = Some d,
      cfg_max_retries = Some n, cfg_max_delay = None, cfg_providers = []\<rparr>"

section \<open>utils/text_processing.py: find_repeated_phrases\<close>

text \<open>\<open>str.lower\<close> on one code point below 256: A..Z and the Latin-1 capitals
  (192..222 without the multiplication sign 215) move up by 32.\<close>

definition lower_char :: "char \<Rightarrow> char" where
  "lower_char c =
     (let n = (of_char c :: nat)
      in if (65 \<le> n \<and> n \<le> 90) \<or> (192 \<le> n \<and> n \<le> 222 \<and> n \<noteq> 215) then char_of (n + 32) else c)"

definition py_lower :: "string \<Rightarrow> string" where
  "py_lower s = map lower_char s"

text \<open>\<open>phrases[phrase] = phrases.get(phrase, 0) + 1\<close> on a dictionary kept in insertion
  order.\<close>

definition count_phrase :: "(string \<times> int) list \<Rightarrow> string \<Rightarrow> (string \<times> int) list" where
  "count_phrase phrases phrase =
     AList.update phrase ((case map_of phrases phrase of None \<Rightarrow> 0 | Some c \<Rightarrow> c) + 1) phrases"

definition find_repeated_phrases :: "string \<Rightarrow> int \<Rightarrow> int \<Rightarrow> (string \<times> int) list" where
  "find_repeated_phrases text min_length min_occurrences =
     (let normalized = py_lower text;
          words = py_split normalized;
          phrases = foldl (\<lambda>phrases i.
                       count_phrase phrases
                         (py_join '' '' (py_slice words (int i) (int i + min_length))))
                     [] [0 ..< nat (int (length words) - min_length + 1)];
          repeated = filter (\<lambda>(phrase, count). count \<ge> min_occurrences) phrases
      in sort_key (\<lambda>x. - snd x) repeated)"

text \<open>A text with the trigram five times, for the example below.\<close>

definition forest_text :: string where
  "forest_text =
     ''The dark forest the dark forest the dark forest the dark forest the DARK forest''"

section \<open>utils/text_processing.py: chunk_text\<close>

text \<open>\<open>text.rfind(c, start, end)\<close> for a single character: the highest index in the
  (clamped) range that holds \<open>c\<close>, or \<open>-1\<close>.\<close>

definition rfind :: "string \<Rightarrow> char \<Rightarrow> int \<Rightarrow> int \<Rightarrow> int" where
  "rfind s c start end_idx =
     (let a = slice_index (length s) start; b = slice_index (length s) end_idx
      in case filter (\<lambda>i. s ! i = c) (rev [a ..< b]) of [] \<Rightarrow> - 1 | i # _ \<Rightarrow> int i)"

definition sentence_end :: "string \<Rightarrow> int \<Rightarrow> int \<Rightarrow> int" where
  "sentence_end s start end_idx =
     max (max (rfind s (CHR ''.'') start end_idx) (rfind s (CHR ''?'') start end_idx))
         (rfind s (CHR ''!'') start end_idx)"

text \<open>The end of the chunk that starts at \<open>start\<close>.\<close>

definition chunk_end :: "string \<Rightarrow> int \<Rightarrow> int \<Rightarrow> int" where
  "chunk_end s max_chunk_size start =
     (let end0 = min (start + max_chunk_size) (int (length s))
      in if end0 < int (length s)
         then (let se = sentence_end s start end0
               in if se > start + max_chunk_size div 2 then se + 1 else end0)
         else end0)"

text \<open>\<open>start = end - overlap if end - overlap > start else end\<close>.\<close>

definition next_start :: "int \<Rightarrow> int \<Rightarrow> int \<Rightarrow> int" where
  "next_start start end_idx overlap =
     (if end_idx - overlap > start then end_idx - overlap else end_idx)"

text \<open>The loop \<open>while start < len(text)\<close>; it need not terminate, so it returns an option
  and \<open>None\<close> stands for running forever.\<close>

partial_function (option) chunk_loop ::
  "string \<Rightarrow> int \<Rightarrow> int \<Rightarrow> int \<Rightarrow> string list \<Rightarrow> string list option" where
  "chunk_loop s max_chunk_size overlap start chunks =
     (if start < int (length s)
      then (let end_idx = chunk_end s max_chunk_size start
            in chunk_loop s max_chunk_size overlap (next_start start end_idx overlap)
                 (chunks @ [py_slice s start end_idx]))
      else Some chunks)"

definition chunk_text :: "string \<Rightarrow> int \<Rightarrow> int \<Rightarrow> string list option" where
  "chunk_text s max_chunk_size overlap =
     (if int (length s) \<le> max_chunk_size then Some [s]
      else chunk_loop s max_chunk_size overlap 0 [])"

text \<open>Putting chunks together as the specification describes it: the first chunk, then
  every further chunk without its first \<open>overlap\<close> characters.\<close>

definition reassemble :: "int \<Rightarrow> string list \<Rightarrow> string" where
  "reassemble overlap chunks =
     (case chunks of [] \<Rightarrow> [] | c # rest \<Rightarrow> c @ concat (map (drop (nat overlap)) rest))"

declare chunk_loop.simps [code]

declare chunk_loop.simps [code]

section \<open>Python's re module, as far as the utilities use it\<close>

text \<open>
  A pattern is a value of \<open>regex\<close>; each pattern of the source is transcribed
  constructor by constructor. \<open>Chr P\<close> matches one character satisfying \<open>P\<close> (a
  literal, a class, the dot), \<open>Star\<close> is the greedy \<open>*\<close>, \<open>Lazy\<close> the non-greedy \<open>*?\<close>,
  \<open>Group n\<close> the \<open>n\<close>-th capturing group_text, \<open>Ahead\<close> the lookahead \<open>(?=...)\<close>, \<open>Eos\<close> is
  \<open>$\<close> (the end of the string, or just before a newline that ends it) and \<open>Bnd\<close> is
  \<open>\b\<close>.
\<close>

datatype regex =
    Chr "char \<Rightarrow> bool"
  | Eps
  | Seq regex regex
  | Alt regex regex
  | Star regex
  | Lazy regex
  | Group nat regex
  | Ahead regex
  | Eos
  | Bnd

type_synonym caps = "nat \<rightharpoonup> nat \<times> nat"

text \<open>Character classes on code points below 256: \<open>\d\<close>, \<open>\w\<close> (letters, digits, the
  numeric signs and the underscore); \<open>\s\<close> is \<open>is_space\<close>.\<close>

definition is_digit :: "char \<Rightarrow> bool" where
  "is_digit c = (let n = (of_char c :: nat) in 48 \<le> n \<and> n \<le> 57)"

definition is_word_char :: "char \<Rightarrow> bool" where
  "is_word_char c =
     (let n = (of_char c :: nat)
      in (48 \<le> n \<and> n \<le> 57) \<or> (65 \<le> n \<and> n \<le> 90) \<or> n = 95 \<or> (97 \<le> n \<and> n \<le> 122) \<or>
         n = 170 \<or> n = 178 \<or> n = 179 \<or> n = 181 \<or> n = 185 \<or> n = 186 \<or>
         (188 \<le> n \<and> n \<le> 190) \<or> (192 \<le> n \<and> n \<le> 214) \<or> (216 \<le> n \<and> n \<le> 246) \<or>
         (248 \<le> n \<and> n \<le> 255))"

text \<open>A literal string, a literal under \<open>re.IGNORECASE\<close>, and \<open>r+\<close>.\<close>

fun lit :: "string \<Rightarrow> regex" where
  "lit [] = Eps"
| "lit (x # xs) = Seq (Chr (\<lambda>c. c = x)) (lit xs)"

fun ilit :: "string \<Rightarrow> regex" where
  "ilit [] = Eps"
| "ilit (x # xs) = Seq (Chr (\<lambda>c. lower_char c = lower_char x)) (ilit xs)"

definition rplus :: "regex \<Rightarrow> regex" where
  "rplus r = Seq r (Star r)"

text \<open>
  Backtracking as a list of successes: \<open>rmatch r s p c\<close> lists, in the order in which
  the backtracking matcher tries them, the end positions (with the groups captured) of
  the matches of \<open>r\<close> that start at position \<open>p\<close> of \<open>s\<close>; the matcher takes the first.
  The two loops take the step of one iteration and the number of characters left, which
  bounds the number of iterations, since an iteration has to consume a character.
\<close>

fun iter_greedy ::
  "(nat \<Rightarrow> caps \<Rightarrow> (nat \<times> caps) list) \<Rightarrow> nat \<Rightarrow> nat \<Rightarrow> caps \<Rightarrow> (nat \<times> caps) list" where
  "iter_greedy step 0 p c = [(p, c)]"
| "iter_greedy step (Suc n) p c =
     concat (map (\<lambda>(p', c'). if p < p' then iter_greedy step n p' c' else []) (step p c)) @
     [(p, c)]"

fun iter_lazy ::
  "(nat \<Rightarrow> caps \<Rightarrow> (nat \<times> caps) list) \<Rightarrow> nat \<Rightarrow> nat \<Rightarrow> caps \<Rightarrow> (nat \<times> caps) list" where
  "iter_lazy step 0 p c = [(p, c)]"
| "iter_lazy step (Suc n) p c =
     (p, c) #
     concat (map (\<lambda>(p', c'). if p < p' then iter_lazy step n p' c' else []) (step p c))"

definition word_at :: "string \<Rightarrow> nat \<Rightarrow> bool" where
  "word_at s p = (p < length s \<and> is_word_char (s ! p))"

primrec rmatch :: "regex \<Rightarrow> string \<Rightarrow> nat \<Rightarrow> caps \<Rightarrow> (nat \<times> caps) list" where
  "rmatch (Chr P) s p c = (if p < length s \<and> P (s ! p) then [(Suc p, c)] else [])"
| "rmatch Eps s p c = [(p, c)]"
| "rmatch (Seq r1 r2) s p c = concat (map (\<lambda>(p', c'). rmatch r2 s p' c') (rmatch r1 s p c))"
| "rmatch (Alt r1 r2) s p c = rmatch r1 s p c @ rmatch r2 s p c"
| "rmatch (Star r) s p c = iter_greedy (rmatch r s) (length s - p) p c"
| "rmatch (Lazy r) s p c = iter_lazy (rmatch r s) (length s - p) p c"
| "rmatch (Group n r) s p c = map (\<lambda>(p', c'). (p', c'(n \<mapsto> (p, p')))) (rmatch r s p c)"
| "rmatch (Ahead r) s p c = (case rmatch r s p c of [] \<Rightarrow> [] | (p', c') # _ \<Rightarrow> [(p, c')])"
| "rmatch Eos s p c =
     (if p = length s \<or> (Suc p = length s \<and> s ! p = CHR 0x0A) then [(p, c)] else [])"
| "rmatch Bnd s p c =
     (if (0 < p \<and> word_at s (p - 1)) \<noteq> word_at s p then [(p, c)] else [])"

text \<open>A match object: where the match starts, where it ends, and its groups.\<close>

type_synonym rematch = "nat \<times> nat \<times> caps"

definition match_at :: "regex \<Rightarrow> string \<Rightarrow> nat \<Rightarrow> rematch option" where
  "match_at r s p = (case rmatch r s p Map.empty of [] \<Rightarrow> None | (e, c) # _ \<Rightarrow> Some (p, e, c))"

text \<open>\<open>re.search\<close>: the match at the leftmost position that has one.\<close>

function search_from :: "regex \<Rightarrow> string \<Rightarrow> nat \<Rightarrow> rematch option" where
  "search_from r s p =
     (if length s < p then None
      else case match_at r s p of Some m \<Rightarrow> Some m | None \<Rightarrow> search_from r s (Suc p))"
  by pat_completeness auto
termination
  by (relation "measure (\<lambda>(r, s, p). Suc (length s) - p)") auto

declare search_from.simps [simp del]

definition re_search :: "regex \<Rightarrow> string \<Rightarrow> rematch option" where
  "re_search r s = search_from r s 0"

text \<open>\<open>re.finditer\<close>: the non-overlapping matches from left to right. After an empty
  match the scan moves on by one character (no pattern of the source matches the empty
  string).\<close>

function finditer_from :: "regex \<Rightarrow> string \<Rightarrow> nat \<Rightarrow> rematch list" where
  "finditer_from r s p =
     (if length s < p then []
      else case match_at r s p of
             None \<Rightarrow> finditer_from r s (Suc p)
           | Some (a, e, c) \<Rightarrow> (a, e, c) # finditer_from r s (if p < e then e else Suc p))"
  by pat_completeness auto
termination
  by (relation "measure (\<lambda>(r, s, p). Suc (length s) - p)") auto

declare finditer_from.simps [simp del]

definition finditer :: "regex \<Rightarrow> string \<Rightarrow> rematch list" where
  "finditer r s = finditer_from r s 0"

text \<open>\<open>m.group(0)\<close> and \<open>m.group(n)\<close> (the empty string for a group that did not
  take part, as \<open>re.findall\<close> reports it).\<close>

definition group0 :: "string \<Rightarrow> rematch \<Rightarrow> string" where
  "group0 s m = (case m of (a, e, c) \<Rightarrow> take (e - a) (drop a s))"

definition group_text :: "string \<Rightarrow> rematch \<Rightarrow> nat \<Rightarrow> string" where
  "group_text s m n = (case m of (a, e, c) \<Rightarrow>
                    (case c n of None \<Rightarrow> [] | Some (i, j) \<Rightarrow> take (j - i) (drop i s)))"

text \<open>\<open>re.split\<close> for a pattern without groups: the pieces between the matches.\<close>

fun split_at :: "string \<Rightarrow> nat \<Rightarrow> rematch list \<Rightarrow> string list" where
  "split_at s prev [] = [drop prev s]"
| "split_at s prev ((a, e, c) # ms) = take (a - prev) (drop prev s) # split_at s e ms"

definition re_split :: "regex \<Rightarrow> string \<Rightarrow> string list" where
  "re_split r s = split_at s 0 (finditer r s)"

text \<open>\<open>re.sub(pattern, "", s)\<close>: the pieces between the matches, put together.\<close>

definition re_remove :: "regex \<Rightarrow> string \<Rightarrow> string" where
  "re_remove r s = concat (split_at s 0 (finditer r s))"

section \<open>More string methods\<close>

text \<open>\<open>s.strip()\<close>.\<close>

definition py_strip :: "string \<Rightarrow> string" where
  "py_strip s = rev (dropWhile is_space (rev (dropWhile is_space s)))"

text \<open>\<open>int(s)\<close> for a string of decimal digits; \<open>None\<close> stands for \<open>ValueError\<close>, which
  a string of more than 4300 digits raises as well.\<close>

definition py_int :: "string \<Rightarrow> nat option" where
  "py_int s =
     (if s \<noteq> [] \<and> list_all is_digit s \<and> length s \<le> int_max_str_digits
      then Some (foldl (\<lambda>n c. 10 * n + (of_char c - 48)) 0 s) else None)"

text \<open>\<open>s.split(sep)\<close> for a non-empty separator; the second argument is the piece
  being read.\<close>

function split_sep :: "string \<Rightarrow> string \<Rightarrow> string \<Rightarrow> string list" where
  "split_sep sep piece s =
     (if s = [] then [piece]
      else if sep \<noteq> [] \<and> take (length sep) s = sep
           then piece # split_sep sep [] (drop (length sep) s)
           else split_sep sep (piece @ [hd s]) (tl s))"
  by pat_completeness auto
termination
  by (relation "measure (\<lambda>(sep, piece, s). length s)") auto

declare split_sep.simps [simp del]

text \<open>\<open>s.replace(old, new, 1)\<close>.\<close>

fun replace_first :: "string \<Rightarrow> string \<Rightarrow> string \<Rightarrow> string" where
  "replace_first old new [] = (if old = [] then new else [])"
| "replace_first old new (c # cs) =
     (if take (length old) (c # cs) = old then new @ drop (length old) (c # cs)
      else c # replace_first old new cs)"

section \<open>utils/parsing.py: parse_outline\<close>

record chapter_entry =
  chapter_num :: int
  title :: string
  summary :: string
  word_count :: int

definition any_char :: regex where "any_char = Chr (\<lambda>c. True)"
definition rdigit :: regex where "rdigit = Chr is_digit"
definition rspace :: regex where "rspace = Chr is_space"

text \<open>\<open>\n(?:Summary|Estimated)\<close>, the lookahead that ends a chapter header.\<close>

definition header_end :: regex where
  "header_end = Seq (lit ''\<newline>'') (Alt (lit ''Summary'') (lit ''Estimated''))"

text \<open>\<open>Chapter (\d+):\s*(.*?)(?=\n(?:Summary|Estimated))\<close> with \<open>re.DOTALL\<close>.\<close>

definition chapter_pattern :: regex where
  "chapter_pattern =
     Seq (lit ''Chapter '') (Seq (Group 1 (rplus rdigit)) (Seq (lit '':'') (Seq (Star rspace)
       (Seq (Group 2 (Lazy any_char)) (Ahead header_end)))))"

text \<open>\<open>(?:Chapter \d+|Chapter):\s*(.*?)(?=\n(?:Summary|Estimated))\<close> with \<open>re.DOTALL\<close>.\<close>

definition alt_chapter_pattern :: regex where
  "alt_chapter_pattern =
     Seq (Alt (Seq (lit ''Chapter '') (rplus rdigit)) (lit ''Chapter'')) (Seq (lit '':'')
       (Seq (Star rspace) (Seq (Group 1 (Lazy any_char)) (Ahead header_end))))"

text \<open>\<open>f'Chapter {chapter_num}:.*?(?=Chapter {int(chapter_num)+1}:|$)'\<close> with
  \<open>re.DOTALL\<close>; both numbers are strings of digits.\<close>

definition chapter_block_pattern :: "string \<Rightarrow> string \<Rightarrow> regex" where
  "chapter_block_pattern this_num next_num =
     Seq (lit (''Chapter '' @ this_num @ '':''))
       (Seq (Lazy any_char) (Ahead (Alt (lit (''Chapter '' @ next_num @ '':'')) Eos)))"

text \<open>\<open>Summary:\s*(.*?)(?=\nEstimated|$)\<close> with \<open>re.DOTALL\<close>.\<close>

definition summary_pattern :: regex where
  "summary_pattern =
     Seq (lit ''Summary:'') (Seq (Star rspace) (Seq (Group 1 (Lazy any_char))
       (Ahead (Alt (lit ''\<newline>Estimated'') Eos))))"

text \<open>\<open>\d[,\d]*\<close>, the number of a word count.\<close>

definition count_digits :: regex where
  "count_digits = Seq rdigit (Star (Chr (\<lambda>c. c = CHR '','' \<or> is_digit c)))"

text \<open>\<open>Estimated word count:\s*(\d[,\d]*)\<close>.\<close>

definition word_count_pattern :: regex where
  "word_count_pattern =
     Seq (lit ''Estimated word count:'') (Seq (Star rspace) (Group 1 count_digits))"

text \<open>\<open>int(word_count_str)\<close> after \<open>replace(',', '')\<close>, with the default 3000 of the
  \<open>except ValueError\<close> branch.\<close>

definition count_of :: "string \<Rightarrow> int" where
  "count_of digits =
     (case py_int (filter (\<lambda>c. c \<noteq> CHR '','') digits) of Some k \<Rightarrow> int k | None \<Rightarrow> 3000)"

text \<open>The chapter block of one header: the match of the block pattern, or, when it
  does not match, \<open>outline.split(next)[0].split(this)[1].strip()\<close>, where an index out
  of range raises.\<close>

definition chapter_block :: "string \<Rightarrow> string \<Rightarrow> string \<Rightarrow> py_error + string" where
  "chapter_block outline this_num next_num =
     (case re_search (chapter_block_pattern this_num next_num) outline of
        Some m \<Rightarrow> Inr (group0 outline m)
      | None \<Rightarrow>
         (case split_sep (''Chapter '' @ next_num @ '':'') [] outline of
            [] \<Rightarrow> Inl IndexError
          | first # _ \<Rightarrow>
             (case split_sep (''Chapter '' @ this_num @ '':'') [] first of
                _ # parts # _ \<Rightarrow> Inr (py_strip parts)
              | _ \<Rightarrow> Inl IndexError)))"

definition strict_summary :: "string \<Rightarrow> string" where
  "strict_summary block =
     (case re_search summary_pattern block of
        Some m \<Rightarrow> py_strip (group_text block m 1) | None \<Rightarrow> [])"

definition strict_word_count :: "string \<Rightarrow> int" where
  "strict_word_count block =
     (case re_search word_count_pattern block of
        Some m \<Rightarrow> count_of (group_text block m 1) | None \<Rightarrow> 3000)"

text \<open>The body of the loop over \<open>chapter_matches\<close>; \<open>int(chapter_num)\<close> raises on a
  string that is not a number or has too many digits, and formatting
  \<open>int(chapter_num)+1\<close> into the block pattern raises when that has too many digits.\<close>

definition strict_entry :: "string \<Rightarrow> string \<times> string \<Rightarrow> py_error + chapter_entry" where
  "strict_entry outline cm =
     (case cm of (chapter_num_str, title_str) \<Rightarrow>
      (case py_int chapter_num_str of
         None \<Rightarrow> Inl (ValueError chapter_num_str)
       | Some n \<Rightarrow>
          (case py_str_nat (n + 1) of
             Inl e \<Rightarrow> Inl e
           | Inr next_num \<Rightarrow>
              (case chapter_block outline chapter_num_str next_num of
                 Inl e \<Rightarrow> Inl e
               | Inr block \<Rightarrow>
                   Inr \<lparr>chapter_num = int n, title = py_strip title_str,
                        summary = strict_summary block,
                        word_count = strict_word_count block\<rparr>))))"

text \<open>The header number \<open>num\<close> is within the limit on digits: \<open>int(num)\<close> and the
  formatting of \<open>int(num)+1\<close> do not raise.\<close>

definition number_in_limit :: "string \<Rightarrow> bool" where
  "number_in_limit num =
     (case py_int num of None \<Rightarrow> False | Some n \<Rightarrow> \<not> isl (py_str_nat (n + 1)))"

text \<open>Running a loop body over a list until the first exception.\<close>

fun collect :: "('a \<Rightarrow> py_error + 'b) \<Rightarrow> 'a list \<Rightarrow> py_error + 'b list" where
  "collect f [] = Inr []"
| "collect f (x # xs) =
     (case f x of
        Inl e \<Rightarrow> Inl e
      | Inr y \<Rightarrow> (case collect f xs of Inl e \<Rightarrow> Inl e | Inr ys \<Rightarrow> Inr (y # ys)))"

text \<open>The header matches: \<open>(number, title)\<close> pairs of the first pattern, or, when it
  finds none, the titles of the second pattern numbered by position.\<close>

definition chapter_matches :: "string \<Rightarrow> (string \<times> string) list" where
  "chapter_matches outline =
     (let found = map (\<lambda>m. (group_text outline m 1, group_text outline m 2))
                      (finditer chapter_pattern outline)
      in if found = []
         then (let alt_matches = map (\<lambda>m. group_text outline m 1)
                                     (finditer alt_chapter_pattern outline)
               in if alt_matches \<noteq> []
                  then map (\<lambda>(i, t). (str_nat (i + 1), py_strip t)) (enumerate 0 alt_matches)
                  else found)
         else found)"

text \<open>\<open>Chapter \d+|CHAPTER \d+\<close>.\<close>

definition lenient_split_pattern :: regex where
  "lenient_split_pattern =
     Alt (Seq (lit ''Chapter '') (rplus rdigit)) (Seq (lit ''CHAPTER '') (rplus rdigit))"

text \<open>\<open>[:\-...]\s*([^\n]+)\<close>: a colon or a dash (the en dash and the em dash of the
  class are code points above 255, outside the strings modelled here).\<close>

definition lenient_title_pattern :: regex where
  "lenient_title_pattern =
     Seq (Chr (\<lambda>c. c = CHR '':'' \<or> c = CHR ''-'')) (Seq (Star rspace)
       (Group 1 (rplus (Chr (\<lambda>c. c \<noteq> CHR 0x0A)))))"

text \<open>\<open>(?:Estimated|Target|Approximate)[^\d]*(\d[,\d]*)[^\d]*words\<close> with
  \<open>re.IGNORECASE\<close>.\<close>

definition lenient_word_count_pattern :: regex where
  "lenient_word_count_pattern =
     Seq (Alt (ilit ''Estimated'') (Alt (ilit ''Target'') (ilit ''Approximate'')))
       (Seq (Star (Chr (\<lambda>c. \<not> is_digit c))) (Seq (Group 1 count_digits)
         (Seq (Star (Chr (\<lambda>c. \<not> is_digit c))) (ilit ''words''))))"

text \<open>The title of a block, the block without its title match, and the word count
  found in what is left.\<close>

definition lenient_title :: "nat \<Rightarrow> string \<Rightarrow> string" where
  "lenient_title i block =
     (case re_search lenient_title_pattern block of
        Some m \<Rightarrow> py_strip (group_text block m 1)
      | None \<Rightarrow> ''Chapter '' @ str_nat (i + 1))"

definition lenient_rest :: "string \<Rightarrow> string" where
  "lenient_rest block =
     (case re_search lenient_title_pattern block of
        Some m \<Rightarrow> replace_first (group0 block m) [] block
      | None \<Rightarrow> block)"

definition lenient_word_count :: "string \<Rightarrow> int" where
  "lenient_word_count rest =
     (case re_search lenient_word_count_pattern rest of
        Some m \<Rightarrow> count_of (group_text rest m 1) | None \<Rightarrow> 3000)"

definition lenient_summary :: "string \<Rightarrow> string" where
  "lenient_summary rest =
     py_strip (case re_search lenient_word_count_pattern rest of
                 Some m \<Rightarrow> re_remove lenient_word_count_pattern rest
               | None \<Rightarrow> rest)"

text \<open>The body of the loop over the blocks; \<open>None\<close> for a blank block (\<open>continue\<close>).\<close>

definition lenient_entry :: "nat \<times> string \<Rightarrow> chapter_entry option" where
  "lenient_entry ib =
     (case ib of (i, block) \<Rightarrow>
      if py_strip block = [] then None
      else Some \<lparr>chapter_num = int i + 1, title = lenient_title i block,
                  summary = lenient_summary (lenient_rest block),
                  word_count = lenient_word_count (lenient_rest block)\<rparr>)"

definition lenient_blocks :: "string \<Rightarrow> string list" where
  "lenient_blocks outline =
     (let chapter_blocks = re_split lenient_split_pattern outline
      in if chapter_blocks \<noteq> [] \<and> py_strip (hd chapter_blocks) = []
         then tl chapter_blocks else chapter_blocks)"

definition lenient_parse_outline :: "string \<Rightarrow> chapter_entry list" where
  "lenient_parse_outline outline =
     List.map_filter lenient_entry (enumerate 0 (lenient_blocks outline))"

definition parse_outline :: "string \<Rightarrow> py_error + chapter_entry list" where
  "parse_outline outline =
     (case collect (strict_entry outline) (chapter_matches outline) of
        Inl e \<Rightarrow> Inl e
      | Inr chapters \<Rightarrow>
          Inr (sort_key chapter_num
                 (if chapters = [] then lenient_parse_outline outline else chapters)))"

section \<open>utils/text_processing.py: calculate_reading_statistics\<close>

text \<open>\<open>\b\w+\b\<close> and \<open>[.!?]+\<close>.\<close>

definition word_pattern :: regex where
  "word_pattern = Seq Bnd (Seq (rplus (Chr is_word_char)) Bnd)"

definition is_terminator :: "char \<Rightarrow> bool" where
  "is_terminator c = (c = CHR ''.'' \<or> c = CHR ''!'' \<or> c = CHR ''?'')"

definition sentence_split_pattern :: regex where
  "sentence_split_pattern = rplus (Chr is_terminator)"

text \<open>The loop over the characters of a word in \<open>count_syllables\<close>; the state is
  \<open>prev_is_vowel\<close> and \<open>count\<close>.\<close>

fun vowel_groups :: "string \<Rightarrow> bool \<Rightarrow> int \<Rightarrow> int" where
  "vowel_groups [] prev_is_vowel count = count"
| "vowel_groups (ch # rest) prev_is_vowel count =
     (let is_vowel = (ch \<in> set ''aeiouy'')
      in vowel_groups rest is_vowel (if is_vowel \<and> \<not> prev_is_vowel then count + 1 else count))"

text \<open>\<open>word.endswith(suffix)\<close>.\<close>

definition ends_with :: "string \<Rightarrow> string \<Rightarrow> bool" where
  "ends_with w suffix = (length suffix \<le> length w \<and> drop (length w - length suffix) w = suffix)"

definition count_syllables :: "string \<Rightarrow> int" where
  "count_syllables word0 =
     (let word = py_lower word0
      in if length word \<le> 3 then 1
         else
           (let count0 = vowel_groups word False 0;
                count1 = (if ends_with word ''e'' \<and> \<not> ends_with word ''le''
                          then count0 - 1 else count0);
                count2 = (if ends_with word ''es'' \<or> ends_with word ''ed''
                          then count1 - 1 else count1)
            in if count2 = 0 then 1 else count2))"

text \<open>True division, which raises on a zero divisor. The float results are modelled as
  exact rationals, and \<open>round(x, 2)\<close> as rounding the exact value to hundredths, ties to
  even. Where the binary float of the code is not the exact value, the last digit can
  differ (a score of exactly -3.595 is -3.60 here and -3.59 in the code); the statistics
  that are zero, and whether a division raises, do not depend on it.\<close>

definition py_truediv :: "int \<Rightarrow> int \<Rightarrow> py_error + rat" where
  "py_truediv a b = (if b = 0 then Inl ZeroDivisionError else Inr (of_int a / of_int b))"

definition py_round2 :: "rat \<Rightarrow> rat" where
  "py_round2 x =
     (let y = x * 100; f = \<lfloor>y\<rfloor>; d = y - of_int f
      in (if d < 1 / 2 then of_int f
          else if 1 / 2 < d then of_int f + 1
          else if even f then of_int f else of_int f + 1) / 100)"

record reading_stats =
  stats_word_count :: int
  stats_sentence_count :: int
  stats_avg_words_per_sentence :: rat
  stats_avg_syllables_per_word :: rat
  stats_flesch_kincaid :: rat

definition words_of_text :: "string \<Rightarrow> string list" where
  "words_of_text s = map (group0 (py_lower s)) (finditer word_pattern (py_lower s))"

definition sentences_of_text :: "string \<Rightarrow> string list" where
  "sentences_of_text s =
     map py_strip (filter (\<lambda>x. py_strip x \<noteq> []) (re_split sentence_split_pattern s))"

definition calculate_reading_statistics :: "string \<Rightarrow> py_error + reading_stats" where
  "calculate_reading_statistics s =
     (let words = words_of_text s;
          sentences = sentences_of_text s;
          total_syllables = sum_list (map count_syllables words);
          word_count = int (length words);
          sentence_count = int (length sentences);
          syllable_count = total_syllables
      in if sentence_count = 0
         then Inr \<lparr>stats_word_count = word_count, stats_sentence_count = 0,
                   stats_avg_words_per_sentence = 0, stats_avg_syllables_per_word = 0,
                   stats_flesch_kincaid = 0\<rparr>
         else
           (case py_truediv word_count sentence_count of
              Inl e \<Rightarrow> Inl e
            | Inr avg_wps \<Rightarrow>
               (case (if word_count > 0 then py_truediv syllable_count word_count else Inr 0) of
                  Inl e \<Rightarrow> Inl e
                | Inr avg_spw \<Rightarrow>
                    Inr \<lparr>stats_word_count = word_count, stats_sentence_count = sentence_count,
                         stats_avg_words_per_sentence = py_round2 avg_wps,
                         stats_avg_syllables_per_word = py_round2 avg_spw,
                         stats_flesch_kincaid =
                           py_round2 (39 / 100 * avg_wps + 118 / 10 * avg_spw - 1559 / 100)\<rparr>)))"

text \<open>The all-zero statistics.\<close>

definition zero_stats :: reading_stats where
  "zero_stats = \<lparr>stats_word_count = 0, stats_sentence_count = 0,
                  stats_avg_words_per_sentence = 0, stats_avg_syllables_per_word = 0,
                  stats_flesch_kincaid = 0\<rparr>"

section \<open>Notions used in the proofs\<close>


text \<open>A list of matches that lie from left to right in \<open>s\<close>, from \<open>prev\<close> on, and cover
  only characters of the class \<open>T\<close>.\<close>

fun class_runs :: "(char \<Rightarrow> bool) \<Rightarrow> string \<Rightarrow> nat \<Rightarrow> rematch list \<Rightarrow> bool" where
  "class_runs T s prev [] = True"
| "class_runs T s prev ((a, e, c) # ms) =
     (prev \<le> a \<and> a \<le> e \<and> (\<forall>i. a \<le> i \<and> i < e \<longrightarrow> i < length s \<and> T (s ! i)) \<and>
      class_runs T s e ms)"


definition block_head :: string where "block_head = ''Chapter 1: ''"
definition block_mid :: string where "block_mid = ''\<newline>Summary: ''"
definition block_tail :: string where "block_tail = ''\<newline>Estimated word count: 2500''"

definition well_formed_block :: "string \<Rightarrow> string \<Rightarrow> string" where
  "well_formed_block t u = block_head @ t @ block_mid @ u @ block_tail"




section \<open>Properties of the writer\<close>

lemma generate_calls:
  "generate provider_llm (a, cs) prompt mt temp prov = (r, (a', cs')) \<Longrightarrow>
     length cs' = Suc (length cs) \<and> take (length cs) cs' = cs \<and>
     r = provider_llm (length cs) (cs' ! length cs)"
  by (auto simp: generate_def Let_def)

lemma long_chapter_loop_calls:
  "long_chapter_loop L target n (chunks, tw, wpc) (a, cs) = (r, (a', cs')) \<Longrightarrow>
     length cs \<le> length cs' \<and> take (length cs) cs' = cs \<and>
     length cs' - length cs \<le> n \<and>
     (\<forall>k. k < length cs' - length cs \<longrightarrow> tw + acc_words L cs' (length cs) k < target)"
proof (induction n arbitrary: chunks tw wpc a cs)
  case 0
  then show ?case by simp
next
  case (Suc n)
  show ?case
  proof (cases "tw \<ge> target")
    case True
    with Suc.prems show ?thesis by simp
  next
    case False
    define wpc' where "wpc' = (if target - tw < 1000 then target - tw else wpc)"
    obtain r1 a1 cs1 where g: "generate L (a, cs) (continuation_prompt wpc' (last chunks)) None (Some (7 / 10)) None = (r1, (a1, cs1))"
      by (metis prod.exhaust)
    from generate_calls[OF g] have g1: "length cs1 = Suc (length cs)" "take (length cs) cs1 = cs"
      "r1 = L (length cs) (cs1 ! length cs)" by auto
    show ?thesis
    proof (cases r1)
      case (Inl e)
      with Suc.prems False g have "cs' = cs1" by (simp add: wpc'_def Let_def)
      with g1 False show ?thesis by (auto simp: less_Suc_eq_0_disj)
    next
      case (Inr nxt)
      with Suc.prems False g have
        rec: "long_chapter_loop L target n (chunks @ [nxt], tw + int (length (py_split nxt)), wpc') (a1, cs1) = (r, (a', cs'))"
        by (simp add: wpc'_def Let_def)
      from Suc.IH[OF rec] have ih: "length cs1 \<le> length cs'" "take (length cs1) cs' = cs1"
        "length cs' - length cs1 \<le> n"
        "\<And>k. k < length cs' - length cs1 \<Longrightarrow> tw + int (length (py_split nxt)) + acc_words L cs' (length cs1) k < target"
        by auto
      have pre: "take (length cs) cs' = cs"
        using ih(2) g1 by (metis le_add2 min.absorb1 plus_1_eq_Suc take_take linorder_le_cases min.absorb2 min.commute)
      have nth: "cs' ! length cs = cs1 ! length cs"
        using ih(2) g1(1) by (metis lessI nth_take)
      have w: "words_of (L (length cs) (cs' ! length cs)) = int (length (py_split nxt))"
      proof -
        have "L (length cs) (cs' ! length cs) = Inr nxt" using nth g1(3) Inr by simp
        then show ?thesis by (simp add: words_of_def)
      qed
      have "tw + acc_words L cs' (length cs) k < target" if "k < length cs' - length cs" for k
      proof (cases k)
        case 0
        with False show ?thesis by simp
      next
        case (Suc k')
        with that g1(1) have "k' < length cs' - length cs1" by simp
        from ih(4)[OF this] show ?thesis using Suc w g1(1) by simp
      qed
      with ih g1 pre show ?thesis by auto
    qed
  qed
qed

lemma write_long_chapter_props:
  assumes "0 \<le> max_chunks"
    and "write_long_chapter L (a, cs) prompt target max_chunks = (r, (a', cs'))"
  shows "take (length cs) cs' = cs \<and> length cs \<le> length cs' \<and>
     int (length cs' - length cs) \<le> max_chunks \<and>
     (\<forall>k. 1 \<le> k \<and> k < length cs' - length cs \<longrightarrow> acc_words L cs' (length cs) k < target) \<and>
     (1 \<le> max_chunks \<and> target \<le> acc_words L cs' (length cs) 1 \<longrightarrow>
        length cs' = Suc (length cs) \<and> r = L (length cs) (cs' ! length cs))"
proof (cases "max_chunks = 0")
  case True
  with assms show ?thesis by (simp add: write_long_chapter_def)
next
  case False
  with assms(1) have pos: "1 \<le> max_chunks" by simp
  obtain r1 a1 cs1 where g: "generate L (a, cs) prompt None (Some (7 / 10)) None = (r1, (a1, cs1))"
    by (metis prod.exhaust)
  from generate_calls[OF g] have g1: "length cs1 = Suc (length cs)" "take (length cs) cs1 = cs"
    "r1 = L (length cs) (cs1 ! length cs)" by auto
  show ?thesis
  proof (cases r1)
    case (Inl e)
    with assms(2) False g have "cs' = cs1" "r = r1" by (simp_all add: write_long_chapter_def Let_def)
    with g1 pos show ?thesis by auto
  next
    case (Inr c)
    define tw where "tw = int (length (py_split c))"
    define n where "n = nat (max_chunks - 1)"
    obtain r2 a2 cs2 where l: "long_chapter_loop L target n ([c], tw, min 2500 (target div max_chunks)) (a1, cs1) = (r2, (a2, cs2))"
      by (metis prod.exhaust)
    from assms(2) False g Inr l have res: "cs' = cs2"
      "r = (case r2 of Inl e \<Rightarrow> Inl e | Inr chunks \<Rightarrow> Inr (py_join ''\<newline>\<newline>'' chunks))"
      by (auto simp: write_long_chapter_def Let_def tw_def n_def split: sum.splits)
    from long_chapter_loop_calls[OF l] have ih: "length cs1 \<le> length cs2" "take (length cs1) cs2 = cs1"
        "length cs2 - length cs1 \<le> n"
        "\<And>k. k < length cs2 - length cs1 \<Longrightarrow> tw + acc_words L cs2 (length cs1) k < target"
      by auto
    have pre: "take (length cs) cs2 = cs"
    proof -
      have "take (length cs) (take (length cs1) cs2) = take (length cs) cs2"
        using g1(1) by (simp add: min_def)
      with ih(2) g1(2) show ?thesis by simp
    qed
    have nth: "cs2 ! length cs = cs1 ! length cs"
      using ih(2) g1(1) by (metis lessI nth_take)
    have w: "words_of (L (length cs) (cs2 ! length cs)) = tw"
    proof -
      have "L (length cs) (cs2 ! length cs) = Inr c" using nth g1(3) Inr by simp
      then show ?thesis by (simp add: words_of_def tw_def)
    qed
    have cnt: "int (length cs2 - length cs) \<le> max_chunks"
      using ih(1,3) g1(1) pos by (simp add: n_def)
    have acc: "acc_words L cs2 (length cs) k < target" if "1 \<le> k" "k < length cs2 - length cs" for k
    proof (cases k)
      case 0
      with that show ?thesis by simp
    next
      case (Suc k')
      with that g1(1) have "k' < length cs2 - length cs1" by simp
      from ih(4)[OF this] show ?thesis using Suc w g1(1) by simp
    qed
    have one: "length cs2 = Suc (length cs) \<and> r = L (length cs) (cs2 ! length cs)"
      if "target \<le> acc_words L cs2 (length cs) 1"
    proof -
      from that w have ge: "target \<le> tw" by simp
      have "long_chapter_loop L target n ([c], tw, min 2500 (target div max_chunks)) (a1, cs1) = (Inr [c], (a1, cs1))"
        using ge by (cases n) simp_all
      with l have "r2 = Inr [c]" "cs2 = cs1" by simp_all
      with res g1 Inr nth show ?thesis by simp
    qed
    from pre ih(1) g1(1) cnt acc one res(1) show ?thesis by auto
  qed
qed

lemma write_chapter_long:
  "3000 < target_of info \<Longrightarrow>
     write_chapter L st info prev prof style =
     write_long_chapter L st (write_chapter_prompt info prev prof style) (target_of info) 3"
  by (simp add: write_chapter_def Let_def)

lemma write_chapter_short:
  assumes "target_of info \<le> 3000"
  shows "write_chapter L (a, cs) info prev prof style =
     (let call = \<lparr>lc_prompt = write_chapter_prompt info prev prof style, lc_max_tokens = None,
                  lc_temperature = Some (7 / 10),
                  lc_provider = (case settings_provider a of None \<Rightarrow> ''default'' | Some p \<Rightarrow> p)\<rparr>
      in (L (length cs) call,
          (if save_prompts a then a\<lparr>prompt_log := prompt_log a @ [lc_prompt call]\<rparr> else a,
           cs @ [call])))"
  using assms by (simp add: write_chapter_def generate_def Let_def)

text \<open>
  Claim C3. A chunked generation (\<open>_write_long_chapter\<close>, reached from \<open>write_chapter\<close>
  with \<open>max_chunks = 3\<close> whenever the target is above 3000) sends at most \<open>max_chunks\<close>
  calls to the provider; a further call is sent only while the words of the chunks
  received so far, counted by \<open>split()\<close>, are below the target; and when the first chunk
  alone reaches the target, exactly one call is made and its answer is returned.
  \<open>cs\<close> are the calls sent before, \<open>cs'\<close> the calls sent afterwards.
\<close>

theorem chunked_generation_bounded:
  assumes "0 \<le> max_chunks"
    and "write_long_chapter L (a, cs) prompt target max_chunks = (r, (a', cs'))"
  shows "take (length cs) cs' = cs \<and> length cs \<le> length cs' \<and>
     int (length cs' - length cs) \<le> max_chunks \<and>
     (\<forall>k. 1 \<le> k \<and> k < length cs' - length cs \<longrightarrow> acc_words L cs' (length cs) k < target) \<and>
     (1 \<le> max_chunks \<and> target \<le> acc_words L cs' (length cs) 1 \<longrightarrow>
        length cs' = Suc (length cs) \<and> r = L (length cs) (cs' ! length cs)) \<and>
     (3000 < target_of info \<longrightarrow>
        write_chapter L st info prev prof style =
        write_long_chapter L st (write_chapter_prompt info prev prof style) (target_of info) 3)"
  using write_long_chapter_props[OF assms] write_chapter_long[of info L st prev prof style]
  by blast

theorem chunked_generation_bounded_witness:
  "(0::int) \<le> 3 \<and>
   (case write_long_chapter (\<lambda>k c. Inr ''one two'')
           (\<lparr>settings_temperature = None, settings_provider = None, save_prompts = False,
             prompt_log = []\<rparr>, []) ''p'' 4 3 of
      (r, (a', cs')) \<Rightarrow>
        r = Inr ''one two\<newline>\<newline>one two'' \<and> length cs' = 2 \<and> int (length cs') \<le> 3 \<and>
        acc_words (\<lambda>k c. Inr ''one two'') cs' 0 1 < 4) \<and>
   (case write_long_chapter (\<lambda>k c. Inr ''one two'')
           (\<lparr>settings_temperature = None, settings_provider = None, save_prompts = False,
             prompt_log = []\<rparr>, []) ''p'' 2 3 of
      (r, (a', cs')) \<Rightarrow>
        2 \<le> acc_words (\<lambda>k c. Inr ''one two'') cs' 0 1 \<and> length cs' = 1 \<and> r = Inr ''one two'') \<and>
   3000 < target_of \<lparr>ci_chapter_num = None, ci_title = None, ci_summary = None,
                      ci_word_count = Some 5000\<rparr>"
proof -
  let ?L = "(\<lambda>k c. Inr ''one two'') :: llm"
  let ?a = "\<lparr>settings_temperature = None, settings_provider = None, save_prompts = False,
             prompt_log = []\<rparr>"
  obtain r a' cs' where e1: "write_long_chapter ?L (?a, []) ''p'' 4 3 = (r, (a', cs'))"
    by (metis prod.exhaust)
  have v1: "fst (write_long_chapter ?L (?a, []) ''p'' 4 3) = Inr ''one two\<newline>\<newline>one two''"
    "length (snd (snd (write_long_chapter ?L (?a, []) ''p'' 4 3))) = 2"
    by (simp_all add: write_long_chapter_def generate_def Let_def py_split_def is_space_def
        eval_nat_numeral)
  from chunked_generation_bounded[OF _ e1] v1 e1
  have p1: "r = Inr ''one two\<newline>\<newline>one two'' \<and> length cs' = 2 \<and> int (length cs') \<le> 3 \<and>
        acc_words ?L cs' 0 1 < 4"
    by (simp add: words_of_def py_split_def is_space_def)
  obtain r2 a2 cs2 where e2: "write_long_chapter ?L (?a, []) ''p'' 2 3 = (r2, (a2, cs2))"
    by (metis prod.exhaust)
  have w2: "acc_words ?L cs2 0 1 = 2"
    by (simp add: words_of_def py_split_def is_space_def)
  from chunked_generation_bounded[OF _ e2] w2
  have p2: "2 \<le> acc_words ?L cs2 0 1 \<and> length cs2 = 1 \<and> r2 = Inr ''one two''"
    by (simp add: words_of_def py_split_def is_space_def)
  have p3: "3000 < target_of \<lparr>ci_chapter_num = None, ci_title = None, ci_summary = None,
                      ci_word_count = Some 5000\<rparr>"
    by (simp add: target_of_def)
  from p1 p2 p3 e1 e2 show ?thesis by simp
qed

text \<open>
  Claim C4. When the target word count is not above 3000, \<open>write_chapter\<close> sends exactly
  one call to the provider (the chapter prompt, temperature 0.7) and returns the
  provider's answer to that call as it is: no chunking.
\<close>

theorem write_chapter_single_call:
  assumes "target_of info \<le> 3000"
  shows "write_chapter L (a, cs) info prev prof style =
     (let call = \<lparr>lc_prompt = write_chapter_prompt info prev prof style, lc_max_tokens = None,
                  lc_temperature = Some (7 / 10),
                  lc_provider = (case settings_provider a of None \<Rightarrow> ''default'' | Some p \<Rightarrow> p)\<rparr>
      in (L (length cs) call,
          (if save_prompts a then a\<lparr>prompt_log := prompt_log a @ [lc_prompt call]\<rparr> else a,
           cs @ [call])))"
  using assms by (simp add: write_chapter_def generate_def Let_def)

theorem write_chapter_single_call_witness:
  "target_of \<lparr>ci_chapter_num = Some 1, ci_title = Some ''T'', ci_summary = None,
              ci_word_count = Some 3000\<rparr> \<le> 3000 \<and>
   fst (write_chapter (\<lambda>k c. Inr ''text'')
          (\<lparr>settings_temperature = None, settings_provider = None, save_prompts = False,
            prompt_log = []\<rparr>, [])
          \<lparr>ci_chapter_num = Some 1, ci_title = Some ''T'', ci_summary = None,
           ci_word_count = Some 3000\<rparr> [] ''profiles'' ''plain'') = Inr ''text'' \<and>
   length (snd (snd (write_chapter (\<lambda>k c. Inr ''text'')
          (\<lparr>settings_temperature = None, settings_provider = None, save_prompts = False,
            prompt_log = []\<rparr>, [])
          \<lparr>ci_chapter_num = Some 1, ci_title = Some ''T'', ci_summary = None,
           ci_word_count = Some 3000\<rparr> [] ''profiles'' ''plain''))) = 1"
proof -
  have h: "target_of \<lparr>ci_chapter_num = Some 1, ci_title = Some ''T'', ci_summary = None,
              ci_word_count = Some 3000\<rparr> \<le> 3000"
    by (simp add: target_of_def)
  show ?thesis
    using h write_chapter_single_call[OF h, of "\<lambda>k c. Inr ''text''"
        "\<lparr>settings_temperature = None, settings_provider = None, save_prompts = False,
            prompt_log = []\<rparr>" "[]" "[]" "''profiles''" "''plain''"]
    by (simp add: Let_def)
qed

section \<open>Properties of the provider gateway\<close>

lemma sleep_length: "delay + py_uniform 0 (1 / 10 * delay) r = delay + delay * r / 10"
  by (simp add: py_uniform_def)

lemma sleep_accepted_sleeps:
  assumes "sleep_accepted longest delay" "0 \<le> r" "r < 1"
  shows "py_sleep longest (delay + py_uniform 0 (1 / 10 * delay) r) = None"
proof -
  let ?secs = "delay + delay * r / 10"
  from assms(1) have d: "0 \<le> delay" "11 / 10 * delay \<le> longest"
    "11 / 10 * delay * 10 ^ 9 < 2 ^ 63"
    by (simp_all add: sleep_accepted_def)
  have "0 \<le> delay * r" using d(1) assms(2) by simp
  then have lo: "0 \<le> ?secs" using d(1) by simp
  have "delay * r \<le> delay * 1" using d(1) assms(3) by (intro mult_left_mono) simp_all
  then have hi: "?secs \<le> 11 / 10 * delay" by simp
  from hi d(2) have a: "\<not> longest < ?secs" by simp
  from hi have "?secs * 10 ^ 9 \<le> 11 / 10 * delay * 10 ^ 9" by simp
  with d(3) have "?secs * 10 ^ 9 < 2 ^ 63" by simp
  with lo have b: "\<not> 2 ^ 63 \<le> \<bar>?secs\<bar> * 10 ^ 9" by simp
  from lo a b have "py_sleep longest ?secs = None" by (simp only: py_sleep_def) simp
  then show ?thesis unfolding sleep_length .
qed

lemma negative_delay_raises:
  assumes "delay < 0" "0 \<le> r"
  shows "py_sleep longest (delay + py_uniform 0 (1 / 10 * delay) r) \<noteq> None"
proof -
  have "delay * r \<le> 0" using assms by (simp add: mult_le_0_iff)
  then have "delay + delay * r / 10 < 0" using assms(1) by simp
  then have "py_sleep longest (delay + delay * r / 10) \<noteq> None" by (simp add: py_sleep_def)
  then show ?thesis unfolding sleep_length .
qed

lemma retry_loop_all_fail:
  "(\<And>k. isl (dispatch B k (re_call env))) \<Longrightarrow> unit_draws W \<Longrightarrow>
   list_all (sleep_accepted (longest_sleep W))
     (backoff_delays delay (re_max_delay env) (nat (re_max_retries env - retries - 1))) \<Longrightarrow>
   \<exists>le' tr'. retry_loop B W env retries delay le tr = (Exhausted, le', tr') \<and>
     attempts tr' = attempts tr @ replicate (nat (re_max_retries env - retries)) (bc_provider (re_call env)) \<and>
     le' = (if retries < re_max_retries env
              then Some (projl (dispatch B (length (attempts tr') - 1) (re_call env))) else le)"
proof (induction B W env retries delay le tr rule: retry_loop.induct)
  case (1 B W env retries delay le tr)
  let ?p = "bc_provider (re_call env)"
  show ?case
  proof (cases "retries < re_max_retries env")
    case False
    then show ?thesis by (subst retry_loop.simps) simp
  next
    case True
    obtain e where e: "dispatch B (length (attempts tr)) (re_call env) = Inl e"
      using "1.prems"(1)[of "length (attempts tr)"]
      by (cases "dispatch B (length (attempts tr)) (re_call env)") auto
    let ?tr1 = "tr\<lparr>attempts := attempts tr @ [?p]\<rparr>"
    show ?thesis
    proof (cases "retries + 1 = re_max_retries env")
      case True
      then have n: "nat (re_max_retries env - retries) = 1" by simp
      have "retry_loop B W env retries delay le tr = (Exhausted, Some e, ?tr1)"
        using True e by (subst retry_loop.simps) (simp add: Let_def)
      with e n \<open>retries < re_max_retries env\<close> show ?thesis by simp
    next
      case False
      let ?jitter = "py_uniform 0 (1 / 10 * delay) (random_draw W (length (sleeps ?tr1)))"
      let ?secs = "delay + ?jitter"
      let ?tr2 = "?tr1\<lparr>sleeps := sleeps ?tr1 @ [?secs]\<rparr>"
      let ?next = "min (delay * 2) (re_max_delay env)"
      have m: "nat (re_max_retries env - retries - 1) =
          Suc (nat (re_max_retries env - (retries + 1) - 1))"
        using True False by simp
      from "1.prems"(3) have acc: "sleep_accepted (longest_sleep W) delay"
        and rest: "list_all (sleep_accepted (longest_sleep W))
          (backoff_delays ?next (re_max_delay env) (nat (re_max_retries env - (retries + 1) - 1)))"
        by (simp_all add: m)
      from "1.prems"(2) have "0 \<le> random_draw W (length (sleeps ?tr1))"
        "random_draw W (length (sleeps ?tr1)) < 1"
        by (simp_all add: unit_draws_def)
      from sleep_accepted_sleeps[OF acc this]
      have sl: "py_sleep (longest_sleep W) ?secs = None" .
      have step: "retry_loop B W env retries delay le tr =
          retry_loop B W env (retries + 1) ?next (Some e) ?tr2"
        using False True e sl by (subst retry_loop.simps) (simp add: Let_def)
      from "1.IH"[OF True refl e refl False refl refl sl "1.prems"(1,2) rest]
      obtain le' tr' where ih: "retry_loop B W env (retries + 1) ?next (Some e) ?tr2 = (Exhausted, le', tr')"
        "attempts tr' = attempts ?tr2 @ replicate (nat (re_max_retries env - (retries + 1))) ?p"
        "le' = (if retries + 1 < re_max_retries env
              then Some (projl (dispatch B (length (attempts tr') - 1) (re_call env))) else Some e)"
        by blast
      have lt: "retries + 1 < re_max_retries env" using True False by simp
      have n: "nat (re_max_retries env - retries) = Suc (nat (re_max_retries env - (retries + 1)))"
        using True by simp
      have "attempts tr' = attempts tr @ replicate (nat (re_max_retries env - retries)) ?p"
        using ih(2) n by (simp add: replicate_append_same)
      with ih(1,3) step lt True show ?thesis by simp
    qed
  qed
qed

lemma retry_loop_success:
  assumes "retries < re_max_retries env"
    and "dispatch B (length (attempts tr)) (re_call env) = Inr t"
  shows "retry_loop B W env retries delay le tr =
     (Returned t, le, tr\<lparr>attempts := attempts tr @ [bc_provider (re_call env)]\<rparr>)"
  using assms by (subst retry_loop.simps) (simp add: Let_def)

lemma provider_env_provider [simp]:
  "bc_provider (re_call (provider_env cfg prompt mt temp p)) = p"
  "re_max_retries (provider_env cfg prompt mt temp p) = max_retries_of cfg"
  "re_max_delay (provider_env cfg prompt mt temp p) = max_delay_of cfg"
  by (simp_all add: provider_env_def Let_def)

lemma try_providers_all_fail:
  "(\<And>p k. p \<in> set chain \<Longrightarrow> initialized providers p \<Longrightarrow>
      isl (dispatch B k (re_call (provider_env cfg prompt mt temp p)))) \<Longrightarrow>
   unit_draws W \<Longrightarrow> sleeps_accepted W cfg \<Longrightarrow>
   \<exists>le' tr'. try_providers B W cfg providers prompt mt temp chain le tr = (Inl (AllProvidersFailed le'), tr') \<and>
     attempts tr' = attempts tr @
        concat (map (replicate (nat (max_retries_of cfg))) (filter (initialized providers) chain)) \<and>
     le' = (if attempts tr' = attempts tr then le
            else Some (projl (dispatch B (length (attempts tr') - 1)
                   (re_call (provider_env cfg prompt mt temp (last (attempts tr')))))))"
proof (induction chain arbitrary: le tr)
  case Nil
  then show ?case by simp
next
  case (Cons p chain)
  let ?m = "max_retries_of cfg"
  let ?env = "provider_env cfg prompt mt temp p"
  have ih: "\<exists>le' tr'. try_providers B W cfg providers prompt mt temp chain le tr = (Inl (AllProvidersFailed le'), tr') \<and>
     attempts tr' = attempts tr @
        concat (map (replicate (nat ?m)) (filter (initialized providers) chain)) \<and>
     le' = (if attempts tr' = attempts tr then le
            else Some (projl (dispatch B (length (attempts tr') - 1)
                   (re_call (provider_env cfg prompt mt temp (last (attempts tr')))))))" for le tr
    using Cons.IH[of le tr] Cons.prems by simp
  have acc: "list_all (sleep_accepted (longest_sleep W))
      (backoff_delays (initial_delay_of cfg) (re_max_delay ?env)
         (nat (re_max_retries ?env - 0 - 1)))"
    using Cons.prems(3) by (simp add: sleeps_accepted_def)
  show ?case
  proof (cases "initialized providers p")
    case False
    with ih[of le tr] show ?thesis by simp
  next
    case True
    have f: "\<And>k. isl (dispatch B k (re_call ?env))" using Cons.prems(1)[of p] True by simp
    from retry_loop_all_fail[of B ?env W "initial_delay_of cfg" 0 le tr, OF f Cons.prems(2) acc]
    obtain le1 tr1 where r: "retry_loop B W ?env 0 (initial_delay_of cfg) le tr = (Exhausted, le1, tr1)"
      "attempts tr1 = attempts tr @ replicate (nat ?m) p"
      "le1 = (if 0 < ?m then Some (projl (dispatch B (length (attempts tr1) - 1) (re_call ?env))) else le)"
      by auto
    from ih[of le1 tr1] obtain le2 tr2 where
      t: "try_providers B W cfg providers prompt mt temp chain le1 tr1 = (Inl (AllProvidersFailed le2), tr2)"
      "attempts tr2 = attempts tr1 @ concat (map (replicate (nat ?m)) (filter (initialized providers) chain))"
      "le2 = (if attempts tr2 = attempts tr1 then le1
            else Some (projl (dispatch B (length (attempts tr2) - 1)
                   (re_call (provider_env cfg prompt mt temp (last (attempts tr2)))))))"
      by blast
    have res: "try_providers B W cfg providers prompt mt temp (p # chain) le tr = (Inl (AllProvidersFailed le2), tr2)"
      using True r(1) t(1) by simp
    have att: "attempts tr2 = attempts tr @ concat (map (replicate (nat ?m)) (filter (initialized providers) (p # chain)))"
      using True r(2) t(2) by simp
    have le2: "le2 = (if attempts tr2 = attempts tr then le
            else Some (projl (dispatch B (length (attempts tr2) - 1)
                   (re_call (provider_env cfg prompt mt temp (last (attempts tr2)))))))"
    proof (cases "attempts tr2 = attempts tr1")
      case same: True
      show ?thesis
      proof (cases "0 < ?m")
        case True
        then have "attempts tr1 \<noteq> attempts tr" "last (attempts tr1) = p"
          using r(2) by (auto simp: nat_eq_iff)
        with same t(3) r(3) True show ?thesis by simp
      next
        case False
        then have "attempts tr1 = attempts tr" using r(2) by simp
        with same t(3) r(3) False show ?thesis by simp
      qed
    next
      case False
      then have "attempts tr2 \<noteq> attempts tr" using t(2) r(2) by auto
      with False t(3) show ?thesis by simp
    qed
    from res att le2 show ?thesis by blast
  qed
qed

lemma build_chain_eq:
  "distinct (map fst ps) \<Longrightarrow>
   build_chain ps acc = acc @ map fst (filter (\<lambda>(p, i). i \<and> p \<notin> set acc) ps)"
proof (induction ps arbitrary: acc)
  case Nil
  then show ?case by simp
next
  case (Cons x ps)
  obtain p i where x: "x = (p, i)" by (cases x)
  from Cons.prems x have d: "distinct (map fst ps)" and np: "p \<notin> fst ` set ps" by auto
  show ?case
  proof (cases "p \<notin> set acc \<and> i")
    case True
    have "filter (\<lambda>(q, j). j \<and> q \<notin> set (acc @ [p])) ps = filter (\<lambda>(q, j). j \<and> q \<notin> set acc) ps"
      using np by (intro filter_cong) (auto simp: image_iff)
    with Cons.IH[OF d, of "acc @ [p]"] True x show ?thesis by simp
  next
    case False
    with Cons.IH[OF d, of acc] x show ?thesis by auto
  qed
qed

lemma providers_to_try_eq:
  "distinct (map fst providers) \<Longrightarrow>
   providers_to_try cfg providers provider =
     requested_provider cfg provider #
     map fst (filter (\<lambda>(p, i). i \<and> p \<noteq> requested_provider cfg provider) providers)"
  by (simp add: providers_to_try_def build_chain_eq)

lemma initialized_iff:
  "distinct (map fst ps) \<Longrightarrow> initialized ps p \<longleftrightarrow> (p, True) \<in> set ps"
proof (cases "map_of ps p")
  case None
  then have "p \<notin> fst ` set ps" by (simp add: map_of_eq_None_iff)
  then have "(p, True) \<notin> set ps" by (auto simp: image_iff)
  with None show ?thesis by (simp add: initialized_def)
next
  case (Some b)
  assume d: "distinct (map fst ps)"
  from Some d have "(p, b) \<in> set ps" by (simp add: map_of_eq_Some_iff)
  moreover have "(p, True) \<in> set ps \<Longrightarrow> b" using Some d by (simp add: map_of_eq_Some_iff)
  ultimately show ?thesis using Some by (auto simp: initialized_def)
qed

lemma filter_initialized_chain:
  assumes "distinct (map fst providers)"
  shows "filter (initialized providers) (providers_to_try cfg providers provider) =
     (if initialized providers (requested_provider cfg provider) then [requested_provider cfg provider] else []) @
     map fst (filter (\<lambda>(p, i). i \<and> p \<noteq> requested_provider cfg provider) providers)"
proof -
  have "filter (initialized providers) (map fst (filter (\<lambda>(p, i). i \<and> p \<noteq> q) providers)) =
        map fst (filter (\<lambda>(p, i). i \<and> p \<noteq> q) providers)" for q
    by (rule filter_True) (auto simp: initialized_iff[OF assms])
  then show ?thesis by (simp add: providers_to_try_eq[OF assms])
qed

lemma count_others:
  "distinct (map fst ps) \<Longrightarrow> (q, True) \<in> set ps \<Longrightarrow>
   Suc (length (filter (\<lambda>(p, i). i \<and> p \<noteq> q) ps)) = length (filter snd ps)"
proof (induction ps)
  case Nil
  then show ?case by simp
next
  case (Cons x ps)
  obtain p i where x: "x = (p, i)" by (cases x)
  show ?case
  proof (cases "p = q")
    case True
    with Cons.prems x have "i" and nq: "q \<notin> fst ` set ps" by (auto simp: image_iff)
    have "filter (\<lambda>(p, i). i \<and> p \<noteq> q) ps = filter snd ps"
      using nq by (intro filter_cong) (auto simp: image_iff)
    with True x \<open>i\<close> show ?thesis by simp
  next
    case False
    with Cons x show ?thesis by auto
  qed
qed

lemma count_others_none:
  "(q, True) \<notin> set ps \<Longrightarrow> filter (\<lambda>(p, i). i \<and> p \<noteq> q) ps = filter snd ps"
  by (intro filter_cong) auto

lemma length_initialized_chain:
  assumes "distinct (map fst providers)"
  shows "length (filter (initialized providers) (providers_to_try cfg providers provider)) =
     length (filter snd providers)"
proof (cases "(requested_provider cfg provider, True) \<in> set providers")
  case True
  with count_others[OF assms True] show ?thesis
    by (simp add: filter_initialized_chain[OF assms] initialized_iff[OF assms])
next
  case False
  with count_others_none[OF False] show ?thesis
    by (simp add: filter_initialized_chain[OF assms] initialized_iff[OF assms])
qed

lemma distinct_initialized_chain:
  assumes "distinct (map fst providers)"
  shows "distinct (filter (initialized providers) (providers_to_try cfg providers provider))"
proof -
  have "distinct (map fst (filter (\<lambda>(p, i). i \<and> p \<noteq> q) providers))" for q
    using assms by (simp add: distinct_map_filter)
  then show ?thesis by (auto simp: filter_initialized_chain[OF assms])
qed

lemma set_initialized_chain:
  assumes "distinct (map fst providers)"
  shows "set (filter (initialized providers) (providers_to_try cfg providers provider)) =
     {p. initialized providers p}"
  by (auto simp: filter_initialized_chain[OF assms] initialized_iff[OF assms] image_iff)

lemma count_list_replicate_same: "count_list (replicate n p) p = n"
  by (induction n) auto

lemma count_list_replicate_other: "q \<noteq> p \<Longrightarrow> count_list (replicate n q) p = 0"
  by (induction n) auto

lemma count_concat_replicate:
  "distinct xs \<Longrightarrow> count_list (concat (map (replicate n) xs)) p = (if p \<in> set xs then n else 0)"
proof (induction xs)
  case Nil
  then show ?case by simp
next
  case (Cons a xs)
  show ?case
  proof (cases "a = p")
    case True
    with Cons show ?thesis by (simp add: count_list_replicate_same)
  next
    case False
    with Cons show ?thesis by (simp add: count_list_replicate_other)
  qed
qed

lemma length_concat_replicate:
  "length (concat (map (replicate n) xs)) = n * length xs"
  by (induction xs) auto

lemma dispatch_fails:
  "isl (B k c) \<Longrightarrow> isl (dispatch B k c)"
  by (simp add: dispatch_def)

lemma try_providers_filter:
  "try_providers B W cfg providers prompt mt temp chain le tr =
   try_providers B W cfg providers prompt mt temp (filter (initialized providers) chain) le tr"
  by (induction chain arbitrary: le tr) (auto split: prod.splits loop_end.splits)

text \<open>
  Claim C1, as stated, fails when a configured delay is negative: \<open>time.sleep\<close> raises
  \<open>ValueError\<close> inside the \<open>except\<close> handler, so with \<open>initial_delay = -1\<close> and
  \<open>max_retries = 3\<close>, both providers initialized and every backend call raising,
  \<open>generate_text\<close> ends after the first attempt, with the exception of \<open>time.sleep\<close>
  and not with the final one.
\<close>

theorem all_failing_negative_delay_raises:
  "generate_text backend_all_down calm_world (config_delay (- 1) 3) two_providers ''hi''
     None None None =
     (Inl (ValueError ''sleep length must be non-negative''),
      \<lparr>attempts = [''openai''], sleeps = []\<rparr>)"
  by (simp add: generate_text_def providers_to_try_def requested_provider_def two_providers_def
      config_delay_def initialized_def retry_loop.simps provider_env_def max_retries_of_def
      initial_delay_of_def max_delay_of_def calm_world_def py_uniform_def py_sleep_def
      dispatch_def backend_all_down_def Let_def)

text \<open>
  Claim C1, amended. When the backend call of every initialized provider always raises
  and every back-off sleep is taken by \<open>time.sleep\<close> (the delays of the \<open>max_retries - 1\<close>
  sleeps of a retry loop are not negative and, with their jitter, not longer than the
  clock takes), \<open>generate_text\<close> ends in the single final exception, after exactly
  \<open>max_retries\<close> attempts against each initialized provider, provider by provider in
  chain order (\<open>max_retries\<close> times the number of initialized providers in total), and
  no attempt against any other provider; the exception carries the error of the last
  attempt (\<open>None\<close> when no attempt was made). A \<open>max_retries\<close> below zero counts as zero.
\<close>

theorem all_providers_failing:
  assumes "distinct (map fst providers)"
    and "\<And>k c. initialized providers (bc_provider c) \<Longrightarrow> isl (B k c)"
    and "unit_draws W"
    and "sleeps_accepted W cfg"
  shows "\<exists>le tr.
     generate_text B W cfg providers prompt provider max_tokens temperature =
       (Inl (AllProvidersFailed le), tr) \<and>
     attempts tr = concat (map (replicate (nat (max_retries_of cfg)))
                     (filter (initialized providers) (providers_to_try cfg providers provider))) \<and>
     length (attempts tr) = nat (max_retries_of cfg) * length (filter snd providers) \<and>
     (\<forall>p. count_list (attempts tr) p = (if initialized providers p then nat (max_retries_of cfg) else 0)) \<and>
     le = (if attempts tr = [] then None
           else Some (projl (dispatch B (length (attempts tr) - 1)
                  (re_call (provider_env cfg prompt max_tokens temperature (last (attempts tr)))))))"
proof -
  let ?chain = "providers_to_try cfg providers provider"
  let ?m = "nat (max_retries_of cfg)"
  have f: "\<And>p k. p \<in> set ?chain \<Longrightarrow> initialized providers p \<Longrightarrow>
      isl (dispatch B k (re_call (provider_env cfg prompt max_tokens temperature p)))"
    using assms(2) by (intro dispatch_fails) simp
  from try_providers_all_fail[of ?chain providers B cfg prompt max_tokens temperature W None
      "\<lparr>attempts = [], sleeps = []\<rparr>", OF f assms(3,4)]
  obtain le tr where r: "generate_text B W cfg providers prompt provider max_tokens temperature =
       (Inl (AllProvidersFailed le), tr)"
    "attempts tr = concat (map (replicate ?m) (filter (initialized providers) ?chain))"
    "le = (if attempts tr = [] then None
           else Some (projl (dispatch B (length (attempts tr) - 1)
                  (re_call (provider_env cfg prompt max_tokens temperature (last (attempts tr)))))))"
    by (auto simp: generate_text_def)
  have len: "length (attempts tr) = ?m * length (filter snd providers)"
    using r(2) by (simp add: length_concat_replicate length_initialized_chain[OF assms(1)])
  have cnt: "count_list (attempts tr) p = (if initialized providers p then ?m else 0)" for p
  proof -
    have "p \<in> set (filter (initialized providers) ?chain) \<longleftrightarrow> initialized providers p"
      using set_initialized_chain[OF assms(1), of cfg provider] by blast
    then show ?thesis
      using r(2) count_concat_replicate[OF distinct_initialized_chain[OF assms(1)], of ?m cfg provider p]
      by simp
  qed
  from r len cnt show ?thesis by blast
qed

theorem all_providers_failing_witness:
  "distinct (map fst two_providers) \<and>
   (\<forall>k c. isl (backend_all_down k c)) \<and>
   unit_draws calm_world \<and>
   sleeps_accepted calm_world (config_retries 3) \<and>
   generate_text backend_all_down calm_world (config_retries 3) two_providers ''hi''
     None None None =
     (Inl (AllProvidersFailed (Some (BackendError ''down: gemini''))),
      \<lparr>attempts = [''openai'', ''openai'', ''openai'', ''gemini'', ''gemini'', ''gemini''],
       sleeps = [21 / 20, 21 / 10, 21 / 20, 21 / 10]\<rparr>) \<and>
   length [''openai'', ''openai'', ''openai'', ''gemini'', ''gemini'', ''gemini''] =
     nat (max_retries_of (config_retries 3)) * length (filter snd two_providers)"
proof -
  have d: "distinct (map fst two_providers)" by (simp add: two_providers_def)
  have f: "\<And>k c. isl (backend_all_down k c)" by (simp add: backend_all_down_def)
  have u: "unit_draws calm_world" by (simp add: unit_draws_def calm_world_def)
  have a: "sleeps_accepted calm_world (config_retries 3)"
    by (simp add: sleeps_accepted_def sleep_accepted_def calm_world_def config_retries_def
        initial_delay_of_def max_delay_of_def max_retries_of_def numeral_2_eq_2)
  have v: "generate_text backend_all_down calm_world (config_retries 3) two_providers ''hi''
     None None None =
     (Inl (AllProvidersFailed (Some (BackendError ''down: gemini''))),
      \<lparr>attempts = [''openai'', ''openai'', ''openai'', ''gemini'', ''gemini'', ''gemini''],
       sleeps = [21 / 20, 21 / 10, 21 / 20, 21 / 10]\<rparr>)"
    by (simp add: generate_text_def providers_to_try_def requested_provider_def two_providers_def
      config_retries_def initialized_def retry_loop.simps provider_env_def max_retries_of_def
      initial_delay_of_def max_delay_of_def calm_world_def py_uniform_def py_sleep_def
      dispatch_def backend_all_down_def Let_def)
  have f': "\<And>k c. initialized two_providers (bc_provider c) \<Longrightarrow> isl (backend_all_down k c)"
    by (simp add: backend_all_down_def)
  from all_providers_failing[where B = backend_all_down and providers = two_providers
      and W = calm_world and cfg = "config_retries 3" and prompt = "''hi''"
      and provider = None and max_tokens = None and temperature = None, OF d f' u a]
  obtain le tr where
    g: "generate_text backend_all_down calm_world (config_retries 3) two_providers ''hi''
          None None None = (Inl (AllProvidersFailed le), tr)" and
    l: "length (attempts tr) =
         nat (max_retries_of (config_retries 3)) * length (filter snd two_providers)"
    by blast
  from g v have "attempts tr =
      [''openai'', ''openai'', ''openai'', ''gemini'', ''gemini'', ''gemini'']" by auto
  with l have "length [''openai'', ''openai'', ''openai'', ''gemini'', ''gemini'', ''gemini''] =
     nat (max_retries_of (config_retries 3)) * length (filter snd two_providers)"
    by simp
  with d f u a v show ?thesis by blast
qed

text \<open>
  Claim C2, as stated, fails in two ways, both providers initialized, \<open>openai\<close> always
  raising and \<open>gemini\<close> always returning. With \<open>max_retries = 0\<close> the loop
  \<open>while retries < max_retries\<close> makes no attempt at all, so \<open>generate_text\<close> raises
  without having called either provider. With \<open>initial_delay = -1\<close> and
  \<open>max_retries = 2\<close>, \<open>time.sleep\<close> raises \<open>ValueError\<close> after the first failed attempt,
  and \<open>gemini\<close> is never reached.
\<close>

theorem failover_not_reached:
  "generate_text backend_first_down calm_world (config_retries 0) two_providers ''hi''
     None None None =
     (Inl (AllProvidersFailed None), \<lparr>attempts = [], sleeps = []\<rparr>) \<and>
   generate_text backend_first_down calm_world (config_delay (- 1) 2) two_providers ''hi''
     None None None =
     (Inl (ValueError ''sleep length must be non-negative''),
      \<lparr>attempts = [''openai''], sleeps = []\<rparr>)"
  by (simp add: generate_text_def providers_to_try_def requested_provider_def two_providers_def
      config_retries_def config_delay_def initialized_def retry_loop.simps provider_env_def
      max_retries_of_def initial_delay_of_def max_delay_of_def calm_world_def py_uniform_def
      py_sleep_def dispatch_def backend_first_down_def Let_def)

text \<open>
  Claim C2, amended. Let \<open>p1\<close>, \<open>p2\<close> be the two initialized providers in chain order,
  every backend call to \<open>p1\<close> raising and every backend call to \<open>p2\<close> (\<open>openai\<close> or
  \<open>gemini\<close>) returning. If \<open>max_retries\<close> is at least 1 and every back-off sleep is
  taken by \<open>time.sleep\<close> (the delays of the \<open>max_retries - 1\<close> sleeps are not negative
  and, with their jitter, not longer than the clock takes), \<open>generate_text\<close> returns
  what \<open>p2\<close> returns and does not raise, after \<open>max_retries\<close> attempts against \<open>p1\<close>
  followed by one attempt against \<open>p2\<close>. The chain is the requested provider followed by
  the other initialized providers in registration order.
\<close>

theorem failover_to_second:
  assumes "distinct (map fst providers)"
    and "filter (initialized providers) (providers_to_try cfg providers provider) = [p1, p2]"
    and "\<And>k c. bc_provider c = p1 \<Longrightarrow> isl (B k c)"
    and "\<And>k c. bc_provider c = p2 \<Longrightarrow> \<not> isl (B k c)"
    and "p2 = ''openai'' \<or> p2 = ''gemini''"
    and "1 \<le> max_retries_of cfg"
    and "unit_draws W"
    and "sleeps_accepted W cfg"
  shows "\<exists>tr.
     generate_text B W cfg providers prompt provider max_tokens temperature =
       (B (nat (max_retries_of cfg)) (re_call (provider_env cfg prompt max_tokens temperature p2)), tr) \<and>
     \<not> isl (fst (generate_text B W cfg providers prompt provider max_tokens temperature)) \<and>
     attempts tr = replicate (nat (max_retries_of cfg)) p1 @ [p2] \<and>
     providers_to_try cfg providers provider =
       requested_provider cfg provider #
       map fst (filter (\<lambda>(p, i). i \<and> p \<noteq> requested_provider cfg provider) providers)"
proof -
  let ?m = "max_retries_of cfg"
  let ?e1 = "provider_env cfg prompt max_tokens temperature p1"
  let ?e2 = "provider_env cfg prompt max_tokens temperature p2"
  let ?d = "initial_delay_of cfg"
  let ?t0 = "\<lparr>attempts = [], sleeps = []\<rparr>"
  have init: "initialized providers p1" "initialized providers p2"
  proof -
    have "set [p1, p2] \<subseteq> {p. initialized providers p}"
      unfolding assms(2)[symmetric] by auto
    then show "initialized providers p1" "initialized providers p2" by auto
  qed
  have g: "generate_text B W cfg providers prompt provider max_tokens temperature =
      try_providers B W cfg providers prompt max_tokens temperature [p1, p2] None ?t0"
    using try_providers_filter[of B W cfg providers prompt max_tokens temperature
        "providers_to_try cfg providers provider" None ?t0] assms(2)
    by (simp add: generate_text_def)
  have f1: "\<And>k. isl (dispatch B k (re_call ?e1))"
    using assms(3) by (intro dispatch_fails) simp
  have acc: "list_all (sleep_accepted (longest_sleep W))
      (backoff_delays ?d (re_max_delay ?e1) (nat (re_max_retries ?e1 - 0 - 1)))"
    using assms(8) by (simp add: sleeps_accepted_def)
  from retry_loop_all_fail[of B ?e1 W ?d 0 None ?t0, OF f1 assms(7) acc]
  obtain le1 tr1 where r1: "retry_loop B W ?e1 0 ?d None ?t0 = (Exhausted, le1, tr1)"
    "attempts tr1 = replicate (nat ?m) p1"
    by auto
  obtain t where t: "B (nat ?m) (re_call ?e2) = Inr t"
    using assms(4)[of "re_call ?e2" "nat ?m"] by (cases "B (nat ?m) (re_call ?e2)") auto
  have d2: "dispatch B (length (attempts tr1)) (re_call ?e2) = Inr t"
    using t assms(5) r1(2) by (auto simp: dispatch_def)
  have r2: "retry_loop B W ?e2 0 ?d le1 tr1 = (Returned t, le1, tr1\<lparr>attempts := attempts tr1 @ [p2]\<rparr>)"
    using retry_loop_success[of 0 ?e2 B tr1 t W ?d le1] assms(6) d2 by simp
  have "try_providers B W cfg providers prompt max_tokens temperature [p1, p2] None ?t0 =
      (Inr t, tr1\<lparr>attempts := attempts tr1 @ [p2]\<rparr>)"
    using init r1(1) r2 by simp
  with g t r1(2) providers_to_try_eq[OF assms(1), of cfg provider] show ?thesis by simp
qed

theorem failover_to_second_witness:
  "distinct (map fst two_providers) \<and>
   filter (initialized two_providers) (providers_to_try (config_retries 2) two_providers None) =
     [''openai'', ''gemini''] \<and>
   (\<forall>k c. isl (backend_first_down k (c\<lparr>bc_provider := ''openai''\<rparr>))) \<and>
   (\<forall>k c. \<not> isl (backend_first_down k (c\<lparr>bc_provider := ''gemini''\<rparr>))) \<and>
   1 \<le> max_retries_of (config_retries 2) \<and>
   unit_draws calm_world \<and>
   sleeps_accepted calm_world (config_retries 2) \<and>
   generate_text backend_first_down calm_world (config_retries 2) two_providers ''hi''
     None None None =
     (Inr ''text from gemini'',
      \<lparr>attempts = [''openai'', ''openai'', ''gemini''], sleeps = [21 / 20]\<rparr>) \<and>
   [''openai'', ''openai'', ''gemini''] =
     replicate (nat (max_retries_of (config_retries 2))) ''openai'' @ [''gemini'']"
proof -
  have d: "distinct (map fst two_providers)" by (simp add: two_providers_def)
  have c: "filter (initialized two_providers)
      (providers_to_try (config_retries 2) two_providers None) = [''openai'', ''gemini'']"
    by (simp add: providers_to_try_def requested_provider_def two_providers_def
        config_retries_def initialized_def)
  have f1: "\<And>k c. bc_provider c = ''openai'' \<Longrightarrow> isl (backend_first_down k c)"
    by (simp add: backend_first_down_def)
  have f2: "\<And>k c. bc_provider c = ''gemini'' \<Longrightarrow> \<not> isl (backend_first_down k c)"
    by (simp add: backend_first_down_def)
  have m: "1 \<le> max_retries_of (config_retries 2)"
    by (simp add: max_retries_of_def config_retries_def)
  have u: "unit_draws calm_world" by (simp add: unit_draws_def calm_world_def)
  have a: "sleeps_accepted calm_world (config_retries 2)"
    by (simp add: sleeps_accepted_def sleep_accepted_def calm_world_def config_retries_def
        initial_delay_of_def max_delay_of_def max_retries_of_def)
  have v: "generate_text backend_first_down calm_world (config_retries 2) two_providers ''hi''
     None None None =
     (Inr ''text from gemini'',
      \<lparr>attempts = [''openai'', ''openai'', ''gemini''], sleeps = [21 / 20]\<rparr>)"
    by (simp add: generate_text_def providers_to_try_def requested_provider_def two_providers_def
      config_retries_def initialized_def retry_loop.simps provider_env_def max_retries_of_def
      initial_delay_of_def max_delay_of_def calm_world_def py_uniform_def py_sleep_def
      dispatch_def backend_first_down_def Let_def)
  from failover_to_second[where B = backend_first_down and providers = two_providers
      and W = calm_world and cfg = "config_retries 2" and provider = None
      and ?p1.0 = "''openai''" and ?p2.0 = "''gemini''" and prompt = "''hi''"
      and max_tokens = None and temperature = None, OF d c f1 f2 _ m u a]
  obtain tr where
    g: "generate_text backend_first_down calm_world (config_retries 2) two_providers ''hi''
         None None None =
         (backend_first_down (nat (max_retries_of (config_retries 2)))
            (re_call (provider_env (config_retries 2) ''hi'' None None ''gemini'')), tr)" and
    at: "attempts tr = replicate (nat (max_retries_of (config_retries 2))) ''openai'' @ [''gemini'']"
    by blast
  from g v have "attempts tr = [''openai'', ''openai'', ''gemini'']" by auto
  with at have "[''openai'', ''openai'', ''gemini''] =
     replicate (nat (max_retries_of (config_retries 2))) ''openai'' @ [''gemini'']"
    by simp
  moreover have "\<forall>k c. isl (backend_first_down k (c\<lparr>bc_provider := ''openai''\<rparr>))"
    "\<forall>k c. \<not> isl (backend_first_down k (c\<lparr>bc_provider := ''gemini''\<rparr>))"
    by (simp_all add: backend_first_down_def)
  ultimately show ?thesis using d c m u a v by blast
qed

section \<open>Properties of find_repeated_phrases\<close>

lemma map_of_count_phrases:
  "map_of (foldl count_phrase d phs) k =
     (if count_list phs k = 0 then map_of d k
      else Some ((case map_of d k of None \<Rightarrow> 0 | Some c \<Rightarrow> c) + int (count_list phs k)))"
proof (induction phs arbitrary: d)
  case Nil
  then show ?case by simp
next
  case (Cons p phs)
  show ?case
    unfolding foldl_Cons Cons.IH by (simp add: count_phrase_def update_conv')
qed

lemma distinct_count_phrases:
  "distinct (map fst d) \<Longrightarrow> distinct (map fst (foldl count_phrase d phs))"
  by (induction phs arbitrary: d) (simp_all add: count_phrase_def distinct_update)

lemma space_is_space: "is_space (CHR '' '')"
  by (simp add: is_space_def)

lemma split_ws_no_space:
  "\<forall>c \<in> set acc. \<not> is_space c \<Longrightarrow> \<forall>w \<in> set (split_ws acc s). \<forall>c \<in> set w. \<not> is_space c"
proof (induction s arbitrary: acc)
  case Nil
  then show ?case by simp
next
  case (Cons c cs)
  show ?case
  proof (cases "is_space c")
    case True
    with Cons.IH[of "[]"] Cons.prems show ?thesis by simp
  next
    case False
    with Cons.IH[of "acc @ [c]"] Cons.prems show ?thesis by simp
  qed
qed


lemma py_split_no_space: "w \<in> set (py_split s) \<Longrightarrow> CHR '' '' \<notin> set w"
  using split_ws_no_space[of "[]" s] space_is_space by (auto simp: py_split_def)

lemma unique_prefix_before:
  "c \<notin> set a \<Longrightarrow> c \<notin> set a' \<Longrightarrow> a @ c # r = a' @ c # r' \<Longrightarrow> a = a' \<and> r = r'"
proof (induction a arbitrary: a')
  case Nil
  then show ?case by (cases a') auto
next
  case (Cons x a)
  show ?case
  proof (cases a')
    case Nil
    with Cons.prems show ?thesis by auto
  next
    case (Cons y b)
    with Cons.prems Cons.IH[of b] show ?thesis by auto
  qed
qed


lemma join3_eq:
  assumes "CHR '' '' \<notin> set a" "CHR '' '' \<notin> set b" "CHR '' '' \<notin> set c"
  shows "py_join '' '' [a, b, c] = ''the dark forest'' \<longleftrightarrow> [a, b, c] = [''the'', ''dark'', ''forest'']"
proof
  assume j: "py_join '' '' [a, b, c] = ''the dark forest''"
  have l: "py_join '' '' [a, b, c] = a @ CHR '' '' # (b @ CHR '' '' # c)"
    by (simp only: py_join.simps append.simps)
  have r: "''the dark forest'' = ''the'' @ CHR '' '' # (''dark'' @ CHR '' '' # ''forest'')"
    by (simp only: append.simps)
  from j l r have e: "a @ CHR '' '' # (b @ CHR '' '' # c) = ''the'' @ CHR '' '' # (''dark'' @ CHR '' '' # ''forest'')"
    by (simp only:)
  have n1: "CHR '' '' \<notin> set ''the''" and n2: "CHR '' '' \<notin> set ''dark''" by simp_all
  from unique_prefix_before[OF assms(1) n1 e]
  have 1: "a = ''the''" and 2: "b @ CHR '' '' # c = ''dark'' @ CHR '' '' # ''forest''"
    by blast+
  from unique_prefix_before[OF assms(2) n2 2] have "b = ''dark''" "c = ''forest''" by blast+
  with 1 show "[a, b, c] = [''the'', ''dark'', ''forest'']" by (simp only:)
next
  assume "[a, b, c] = [''the'', ''dark'', ''forest'']"
  then have "a = ''the''" "b = ''dark''" "c = ''forest''" by blast+
  then show "py_join '' '' [a, b, c] = ''the dark forest''"
    by (simp only: py_join.simps append.simps)
qed

lemma count_list_map:
  "count_list (map g xs) k = length (filter (\<lambda>i. g i = k) xs)"
  by (induction xs) auto

lemma slice3:
  assumes "i + 3 \<le> length ws"
  shows "py_slice ws (int i) (int i + 3) = take 3 (drop i ws)"
  using assms by (simp add: py_slice_def slice_index_def Let_def min_def nat_add_distrib)

lemma take3_drop:
  assumes "i + 3 \<le> length ws"
  shows "take 3 (drop i ws) = [ws ! i, ws ! (i + 1), ws ! (i + 2)]"
proof -
  have l: "length (take 3 (drop i ws)) = 3" using assms by simp
  show ?thesis
  proof (rule nth_equalityI)
    show "length (take 3 (drop i ws)) = length [ws ! i, ws ! (i + 1), ws ! (i + 2)]"
      using l by simp
  next
    fix k assume "k < length (take 3 (drop i ws))"
    with l have "k = 0 \<or> k = 1 \<or> k = 2" by auto
    with assms show "take 3 (drop i ws) ! k = [ws ! i, ws ! (i + 1), ws ! (i + 2)] ! k"
      by auto
  qed
qed

lemma trigram_count:
  fixes ws :: "string list"
  assumes "\<And>w. w \<in> set ws \<Longrightarrow> CHR '' '' \<notin> set w"
  shows "count_list (map (\<lambda>i. py_join '' '' (py_slice ws (int i) (int i + 3)))
            [0 ..< nat (int (length ws) - 3 + 1)]) ''the dark forest'' =
         length (filter (\<lambda>i. take 3 (drop i ws) = [''the'', ''dark'', ''forest'']) [0 ..< length ws])"
proof -
  let ?n = "length ws"
  let ?T = "[''the'', ''dark'', ''forest'']"
  have m: "nat (int ?n - 3 + 1) = ?n - 2" by simp
  have a: "filter (\<lambda>i. py_join '' '' (py_slice ws (int i) (int i + 3)) = ''the dark forest'') [0 ..< ?n - 2] =
        filter (\<lambda>i. take 3 (drop i ws) = ?T) [0 ..< ?n - 2]"
  proof (rule filter_cong[OF refl])
    fix i assume "i \<in> set [0 ..< ?n - 2]"
    then have i: "i + 3 \<le> ?n" by auto
    have ns: "CHR '' '' \<notin> set (ws ! i)" "CHR '' '' \<notin> set (ws ! (i + 1))" "CHR '' '' \<notin> set (ws ! (i + 2))"
      using i assms by (simp_all)
    show "(py_join '' '' (py_slice ws (int i) (int i + 3)) = ''the dark forest'') =
          (take 3 (drop i ws) = ?T)"
      unfolding slice3[OF i] take3_drop[OF i] by (rule join3_eq[OF ns])
  qed
  have b: "filter (\<lambda>i. take 3 (drop i ws) = ?T) [?n - 2 ..< ?n] = []"
  proof -
    have "take 3 (drop i ws) \<noteq> ?T" if "i \<in> set [?n - 2 ..< ?n]" for i
    proof
      assume "take 3 (drop i ws) = ?T"
      then have "length (take 3 (drop i ws)) = 3" by simp
      with that show False by auto
    qed
    then show ?thesis by (simp add: filter_empty_conv)
  qed
  have c: "[0 ..< ?n] = [0 ..< ?n - 2] @ [?n - 2 ..< ?n]"
    using upt_add_eq_append[of 0 "?n - 2" "?n - (?n - 2)"] by simp
  show ?thesis
    unfolding m count_list_map a
    by (subst c) (simp only: filter_append b append_Nil2)
qed

lemma find_repeated_phrases_sorted:
  "sorted_wrt (\<lambda>a b. snd a \<ge> snd b) (find_repeated_phrases text min_length min_occurrences)"
proof -
  have "sorted (map (\<lambda>x. - snd x) (find_repeated_phrases text min_length min_occurrences))"
    by (simp add: find_repeated_phrases_def Let_def)
  then show ?thesis by (simp add: sorted_map)
qed

text \<open>
  Claim C9. If the words \<open>the\<close>, \<open>dark\<close>, \<open>forest\<close> occur as three consecutive
  tokens of \<open>text.lower().split()\<close> at exactly five positions, then
  \<open>find_repeated_phrases(text, 3, 3)\<close> contains the pair \<open>("the dark forest", 5)\<close>, and
  the returned list is ordered by descending count.
\<close>

theorem dark_forest_reported:
  assumes "length (filter (\<lambda>i. take 3 (drop i (py_split (py_lower text))) =
                               [''the'', ''dark'', ''forest''])
                     [0 ..< length (py_split (py_lower text))]) = 5"
  shows "(''the dark forest'', 5) \<in> set (find_repeated_phrases text 3 3) \<and>
     sorted_wrt (\<lambda>a b. snd a \<ge> snd b) (find_repeated_phrases text 3 3)"
proof -
  let ?ws = "py_split (py_lower text)"
  let ?phs = "map (\<lambda>i. py_join '' '' (py_slice ?ws (int i) (int i + 3)))
                [0 ..< nat (int (length ?ws) - 3 + 1)]"
  let ?d = "foldl count_phrase [] ?phs"
  have cnt: "count_list ?phs ''the dark forest'' = 5"
    using trigram_count[of ?ws] py_split_no_space[of _ "py_lower text"] assms by simp
  have "map_of ?d ''the dark forest'' = Some 5"
    using cnt by (simp add: map_of_count_phrases)
  then have mem: "(''the dark forest'', 5) \<in> set ?d"
    by (rule map_of_SomeD)
  have d: "find_repeated_phrases text 3 3 =
      sort_key (\<lambda>x. - snd x) (filter (\<lambda>(phrase, count). count \<ge> 3) ?d)"
    by (simp only: find_repeated_phrases_def Let_def foldl_map)
  from mem have "(''the dark forest'', 5) \<in> set (find_repeated_phrases text 3 3)"
    unfolding d by simp
  with find_repeated_phrases_sorted show ?thesis by blast
qed


theorem dark_forest_reported_witness:
  "length (filter (\<lambda>i. take 3 (drop i (py_split (py_lower forest_text))) =
                          [''the'', ''dark'', ''forest''])
             [0 ..< length (py_split (py_lower forest_text))]) = 5 \<and>
   (''the dark forest'', 5) \<in> set (find_repeated_phrases forest_text 3 3) \<and>
   find_repeated_phrases forest_text 3 3 =
     [(''the dark forest'', 5), (''dark forest the'', 4), (''forest the dark'', 4)]"
proof -
  have ws: "py_split (py_lower forest_text) =
      [''the'', ''dark'', ''forest'', ''the'', ''dark'', ''forest'', ''the'', ''dark'', ''forest'',
       ''the'', ''dark'', ''forest'', ''the'', ''dark'', ''forest'']"
    by code_simp
  have h: "length (filter (\<lambda>i. take 3 (drop i (py_split (py_lower forest_text))) =
                          [''the'', ''dark'', ''forest''])
             [0 ..< length (py_split (py_lower forest_text))]) = 5"
    unfolding ws by (simp add: upt_rec)
  have v: "find_repeated_phrases forest_text 3 3 =
     [(''the dark forest'', 5), (''dark forest the'', 4), (''forest the dark'', 4)]"
    by code_simp
  from dark_forest_reported[OF h] h v show ?thesis by blast
qed

section \<open>Properties of chunk_text\<close>

lemma rfind_bound:
  "rfind s c start e = - 1 \<or>
   (int (slice_index (length s) start) \<le> rfind s c start e \<and>
    rfind s c start e < int (slice_index (length s) e))"
proof (cases "filter (\<lambda>i. s ! i = c) (rev [slice_index (length s) start ..< slice_index (length s) e])")
  case Nil
  then show ?thesis by (simp add: rfind_def Let_def)
next
  case (Cons i rest)
  then have "i \<in> set (filter (\<lambda>i. s ! i = c) (rev [slice_index (length s) start ..< slice_index (length s) e]))"
    by simp
  then have "slice_index (length s) start \<le> i \<and> i < slice_index (length s) e" by auto
  with Cons show ?thesis by (simp add: rfind_def Let_def)
qed

lemma rfind_lt:
  assumes "0 \<le> e"
  shows "rfind s c start e < e"
proof -
  have "int (slice_index (length s) e) \<le> e" using assms by (simp add: slice_index_def)
  with rfind_bound[of s c start e] assms show ?thesis by auto
qed

lemma sentence_end_lt: "0 \<le> e \<Longrightarrow> sentence_end s start e < e"
  by (simp add: sentence_end_def rfind_lt)

lemma chunk_end_gt:
  assumes "1 \<le> msz" "start < int (length s)"
  shows "start < chunk_end s msz start"
proof -
  have "0 \<le> msz div 2" using assms(1) by simp
  with assms show ?thesis by (auto simp: chunk_end_def Let_def min_def)
qed

lemma next_start_gt: "start < e \<Longrightarrow> start < next_start start e ov"
  by (simp add: next_start_def)

lemma chunk_loop_terminates:
  assumes "1 \<le> msz"
  shows "\<exists>cs. chunk_loop s msz ov start acc = Some cs"
proof (induction "nat (int (length s) - start)" arbitrary: start acc rule: less_induct)
  case less
  show ?case
  proof (cases "start < int (length s)")
    case False
    then show ?thesis by (subst chunk_loop.simps) simp
  next
    case True
    let ?e = "chunk_end s msz start"
    let ?n = "next_start start ?e ov"
    have "start < ?n" using chunk_end_gt[OF assms True] by (rule next_start_gt)
    with True have "nat (int (length s) - ?n) < nat (int (length s) - start)" by simp
    from less[OF this, of "acc @ [py_slice s start ?e]"]
    show ?thesis using True by (subst chunk_loop.simps) (simp add: Let_def)
  qed
qed

lemma chunk_text_terminates: "1 \<le> msz \<Longrightarrow> \<exists>cs. chunk_text s msz ov = Some cs"
  using chunk_loop_terminates[of msz s ov 0 "[]"] by (simp add: chunk_text_def)

lemma chunk_end_zero:
  assumes "0 \<le> start" "start < int (length s)"
  shows "chunk_end s 0 start = start"
proof -
  have "sentence_end s start start < start" using assms(1) by (rule sentence_end_lt)
  with assms show ?thesis by (simp add: chunk_end_def Let_def min_def)
qed

lemma chunk_loop_zero_size_no_result:
  "chunk_loop t msz ov st cs = Some r \<Longrightarrow>
   \<not> (msz = 0 \<and> 0 \<le> ov \<and> 0 \<le> st \<and> st < int (length t))"
proof (rule chunk_loop.raw_induct[where P = "\<lambda>t msz ov st cs r.
          \<not> (msz = 0 \<and> 0 \<le> ov \<and> 0 \<le> st \<and> st < int (length t))"])
  fix f a b c d e r'
  assume ih: "\<And>a' b' c' d' e' y. f a' b' c' d' e' = Some y \<Longrightarrow>
                \<not> (b' = 0 \<and> 0 \<le> c' \<and> 0 \<le> d' \<and> d' < int (length a'))"
    and body: "(if d < int (length a)
          then let end_idx = chunk_end a b d
               in f a b c (next_start d end_idx c) (e @ [py_slice a d end_idx])
          else Some e) = Some r'"
  show "\<not> (b = 0 \<and> 0 \<le> c \<and> 0 \<le> d \<and> d < int (length a))"
  proof
    assume h: "b = 0 \<and> 0 \<le> c \<and> 0 \<le> d \<and> d < int (length a)"
    then have e: "chunk_end a b d = d" using chunk_end_zero[of d a] by simp
    from h have n: "next_start d d c = d" by (simp add: next_start_def)
    from body h e n have "f a b c d (e @ [py_slice a d d]) = Some r'"
      by (simp add: Let_def)
    from ih[OF this] h show False by simp
  qed
qed

lemma chunk_loop_zero_size_diverges:
  assumes "0 \<le> ov" "0 \<le> start" "start < int (length s)"
  shows "chunk_loop s 0 ov start chunks = None"
proof (rule ccontr)
  assume "chunk_loop s 0 ov start chunks \<noteq> None"
  then obtain y where y: "chunk_loop s 0 ov start chunks = Some y" by auto
  from chunk_loop_zero_size_no_result[OF y] assms show False by simp
qed

lemma chunk_text_zero_size_diverges:
  assumes "s \<noteq> []" "0 \<le> ov"
  shows "chunk_text s 0 ov = None"
  using assms chunk_loop_zero_size_diverges[of ov 0 s "[]"] by (simp add: chunk_text_def)

lemma py_slice_take_drop:
  assumes "0 \<le> a" "a \<le> b" "b \<le> int (length s)"
  shows "py_slice s a b = take (nat (b - a)) (drop (nat a) s)"
proof -
  have n: "nat a \<le> nat b" "nat b \<le> length s" using assms by simp_all
  have "slice_index (length s) a = nat a" "slice_index (length s) b = nat b"
    using assms n by (simp_all add: slice_index_def)
  then show ?thesis using assms by (simp add: py_slice_def Let_def nat_diff_distrib)
qed

lemma chunk_end_le:
  assumes "0 \<le> start" "start < int (length s)" "1 \<le> msz"
  shows "chunk_end s msz start \<le> int (length s)"
proof -
  let ?e0 = "min (start + msz) (int (length s))"
  have "0 \<le> ?e0" using assms by simp
  then have "sentence_end s start ?e0 < ?e0" by (rule sentence_end_lt)
  then show ?thesis by (auto simp: chunk_end_def Let_def)
qed

lemma chunk_end_long:
  assumes "0 \<le> start" "start < int (length s)" "0 \<le> ov" "ov < msz" "ov \<le> msz div 2 + 1"
  shows "chunk_end s msz start = int (length s) \<or> ov < chunk_end s msz start - start"
  using assms by (auto simp: chunk_end_def Let_def min_def)

lemma reassemble_snoc:
  "reassemble ov (chunks @ [c]) =
     (if chunks = [] then c else reassemble ov chunks @ drop (nat ov) c)"
  by (cases chunks) (simp_all add: reassemble_def)

lemma take_extend:
  assumes "a \<le> b"
  shows "take a s @ take (b - a) (drop a s) = take b s"
proof -
  have "take b s = take (a + (b - a)) s" using assms by simp
  also have "\<dots> = take a s @ take (b - a) (drop a s)" by (rule take_add)
  finally show ?thesis by simp
qed

lemma chunk_loop_roundtrip:
  assumes "0 \<le> ov" "ov < msz" "ov \<le> msz div 2 + 1"
    and "0 \<le> start"
    and "0 \<le> E" "E \<le> int (length s)" "reassemble ov chunks = take (nat E) s"
    and "if chunks = [] then start = 0 \<and> E = 0
         else start = E - ov \<or> (start = E \<and> E = int (length s))"
  shows "\<exists>cs. chunk_loop s msz ov start chunks = Some cs \<and> reassemble ov cs = s"
  using assms(4-)
proof (induction "nat (int (length s) - start)" arbitrary: start chunks E rule: less_induct)
  case less
  have msz: "1 \<le> msz" using assms(1,2) by simp
  show ?case
  proof (cases "start < int (length s)")
    case False
    have "E = int (length s) \<or> s = []"
      using less.prems False assms(1) by (auto split: if_splits)
    then have "reassemble ov chunks = s" using less.prems(4) by auto
    with False show ?thesis by (subst chunk_loop.simps) simp
  next
    case True
    let ?e = "chunk_end s msz start"
    let ?n = "next_start start ?e ov"
    let ?c = "py_slice s start ?e"
    have gt: "start < ?e" by (rule chunk_end_gt[OF msz True])
    have le: "?e \<le> int (length s)" by (rule chunk_end_le[OF less.prems(1) True msz])
    have long: "?e = int (length s) \<or> ov < ?e - start"
      by (rule chunk_end_long[OF less.prems(1) True assms(1,2,3)])
    have c: "?c = take (nat (?e - start)) (drop (nat start) s)"
      using less.prems(1) gt le by (intro py_slice_take_drop) simp_all
    have re: "reassemble ov (chunks @ [?c]) = take (nat ?e) s"
    proof (cases "chunks = []")
      case True
      with less.prems(5) c show ?thesis by (simp add: reassemble_snoc reassemble_def)
    next
      case False
      with less.prems(5) True have st: "start = E - ov" by auto
      have Ee: "E \<le> ?e" using long st less.prems(3) by auto
      have "drop (nat ov) ?c = take (nat (?e - start) - nat ov) (drop (nat start + nat ov) s)"
        unfolding c by (simp add: drop_take add.commute)
      also have "nat (?e - start) - nat ov = nat ?e - nat E"
        using st assms(1) less.prems(1,2) Ee by (simp add: nat_diff_distrib)
      also have "nat start + nat ov = nat E"
        using st assms(1) less.prems(1) by (simp add: nat_add_distrib[symmetric])
      finally have d: "drop (nat ov) ?c = take (nat ?e - nat E) (drop (nat E) s)" .
      have "reassemble ov (chunks @ [?c]) = take (nat E) s @ take (nat ?e - nat E) (drop (nat E) s)"
        using False less.prems(4) d by (simp add: reassemble_snoc)
      also have "\<dots> = take (nat ?e) s"
        using Ee less.prems(2) by (intro take_extend) simp
      finally show ?thesis .
    qed
    have n0: "0 \<le> ?n" using gt less.prems(1) next_start_gt[of start ?e ov] by simp
    have nn: "start < ?n" using gt by (rule next_start_gt)
    have inv: "if chunks @ [?c] = [] then ?n = 0 \<and> ?e = 0
               else ?n = ?e - ov \<or> (?n = ?e \<and> ?e = int (length s))"
      using long by (auto simp: next_start_def)
    have e0: "0 \<le> ?e" using gt less.prems(1) by simp
    have m: "nat (int (length s) - ?n) < nat (int (length s) - start)" using nn True by simp
    from less.hyps[OF m n0 e0 le re inv]
    show ?thesis using True by (subst chunk_loop.simps) (simp add: Let_def)
  qed
qed

text \<open>
  Claim C5, as stated, fails when a chunk is not longer than the overlap: the code then
  starts the next chunk at the end of this one (\<open>start = end\<close>), nothing is duplicated,
  and discarding \<open>overlap\<close> characters of the next chunk loses text. Here the third
  chunk \<open>" cdef."\<close> ends at a sentence boundary after 6 characters, with overlap 6.
\<close>

theorem chunk_text_overlap_loses_text:
  "chunk_text ''ab. cdef. ghijklmnop'' 8 6 =
     Some [''ab. cdef'', ''. cdef.'', '' cdef.'', '' ghijklm'', ''hijklmno'', ''jklmnop'',
           ''klmnop''] \<and>
   reassemble 6 [''ab. cdef'', ''. cdef.'', '' cdef.'', '' ghijklm'', ''hijklmno'', ''jklmnop'',
           ''klmnop''] = ''ab. cdef.lmnop'' \<and>
   ''ab. cdef.lmnop'' \<noteq> ''ab. cdef. ghijklmnop''"
  by code_simp

text \<open>
  Claim C5, amended. A text no longer than \<open>max_chunk_size\<close> comes back as the single
  chunk \<open>[text]\<close>. For a longer text, whenever
  \<open>0 \<le> overlap < max_chunk_size\<close> and \<open>overlap \<le> max_chunk_size // 2 + 1\<close> (so that every
  chunk but the last is longer than the overlap), \<open>chunk_text\<close> returns, and the first
  chunk followed by every further chunk without its first \<open>overlap\<close> characters is the
  text again.
\<close>

theorem chunk_text_roundtrip:
  "(int (length s) \<le> max_chunk_size \<longrightarrow> chunk_text s max_chunk_size overlap = Some [s]) \<and>
   (max_chunk_size < int (length s) \<and> 0 \<le> overlap \<and> overlap < max_chunk_size \<and>
    overlap \<le> max_chunk_size div 2 + 1 \<longrightarrow>
      (\<exists>chunks. chunk_text s max_chunk_size overlap = Some chunks \<and> reassemble overlap chunks = s))"
proof -
  have "\<exists>chunks. chunk_loop s max_chunk_size overlap 0 [] = Some chunks \<and> reassemble overlap chunks = s"
    if "0 \<le> overlap" "overlap < max_chunk_size" "overlap \<le> max_chunk_size div 2 + 1"
    using chunk_loop_roundtrip[OF that, of 0 0 s "[]"] by (simp add: reassemble_def)
  then show ?thesis by (auto simp: chunk_text_def)
qed

theorem chunk_text_roundtrip_witness:
  "int (length ''abc'') \<le> 4 \<and> chunk_text ''abc'' 4 2 = Some [''abc''] \<and>
   4 < int (length ''abcdefghij'') \<and> (0::int) \<le> 2 \<and> (2::int) < 4 \<and> (2::int) \<le> 4 div 2 + 1 \<and>
   chunk_text ''abcdefghij'' 4 2 = Some [''abcd'', ''cdef'', ''efgh'', ''ghij'', ''ij''] \<and>
   reassemble 2 [''abcd'', ''cdef'', ''efgh'', ''ghij'', ''ij''] = ''abcdefghij''"
proof -
  have v: "chunk_text ''abcdefghij'' 4 2 = Some [''abcd'', ''cdef'', ''efgh'', ''ghij'', ''ij'']"
    by code_simp
  from chunk_text_roundtrip[of "''abcdefghij''" 4 2] v
  have r: "reassemble 2 [''abcd'', ''cdef'', ''efgh'', ''ghij'', ''ij''] = ''abcdefghij''"
    by simp
  from chunk_text_roundtrip[of "''abc''" 4 2]
  have "chunk_text ''abc'' 4 2 = Some [''abc'']" by simp
  with v r show ?thesis by simp
qed

text \<open>
  Claim C10. For every text and every overlap, \<open>chunk_text\<close> returns when
  \<open>max_chunk_size\<close> is at least 1 (in particular the call of \<open>analyze_pacing\<close>, with
  size 1000 and overlap 0, returns), because the start index of the loop grows with
  every iteration. With \<open>max_chunk_size = 0\<close> it is not guaranteed: on every non-empty
  text with a non-negative overlap the loop never ends.
\<close>

theorem chunk_text_termination:
  "(1 \<le> max_chunk_size \<longrightarrow>
      (\<exists>chunks. chunk_text s max_chunk_size overlap = Some chunks) \<and>
      (\<forall>start. start < int (length s) \<longrightarrow>
         start < next_start start (chunk_end s max_chunk_size start) overlap)) \<and>
   (\<exists>chunks. chunk_text s 1000 0 = Some chunks) \<and>
   (s \<noteq> [] \<and> 0 \<le> overlap \<longrightarrow> chunk_text s 0 overlap = None)"
  using chunk_text_terminates[of max_chunk_size s overlap] chunk_text_terminates[of 1000 s 0]
    chunk_text_zero_size_diverges[of s overlap] next_start_gt chunk_end_gt
  by auto


theorem chunk_text_termination_witness:
  "(1::int) \<le> 4 \<and>
   chunk_text ''abcdefghij'' 4 3 = Some [''abcd'', ''bcde'', ''cdef'', ''defg'', ''efgh'', ''fghi'',
     ''ghij'', ''hij''] \<and>
   (0::int) < int (length ''abcdefghij'') \<and>
   (0::int) < next_start 0 (chunk_end ''abcdefghij'' 4 0) 3 \<and>
   ''a'' \<noteq> [] \<and> (0::int) \<le> 0 \<and> chunk_text ''a'' 0 0 = None"
proof -
  have v: "chunk_text ''abcdefghij'' 4 3 = Some [''abcd'', ''bcde'', ''cdef'', ''defg'', ''efgh'',
     ''fghi'', ''ghij'', ''hij'']"
    by code_simp
  from chunk_text_termination[of 4 "''abcdefghij''" 3]
  have s: "(0::int) < next_start 0 (chunk_end ''abcdefghij'' 4 0) 3" by simp
  from chunk_text_termination[of 0 "''a''" 0]
  have "chunk_text ''a'' 0 0 = None" by simp
  with v s show ?thesis by simp
qed

section \<open>Properties of the matcher\<close>

lemma py_strip_empty_iff: "py_strip s = [] \<longleftrightarrow> (\<forall>c \<in> set s. is_space c)"
proof
  assume e: "py_strip s = []"
  let ?t = "dropWhile is_space s"
  from e have "dropWhile is_space (rev ?t) = []" by (simp add: py_strip_def)
  then have "\<forall>c \<in> set (rev ?t). is_space c" by (simp only: dropWhile_eq_Nil_conv)
  then have a: "\<forall>c \<in> set ?t. is_space c" by simp
  have "?t = []"
  proof (rule ccontr)
    assume "?t \<noteq> []"
    then have "\<not> is_space (hd ?t)" by (rule hd_dropWhile)
    moreover have "hd ?t \<in> set ?t" using \<open>?t \<noteq> []\<close> by simp
    ultimately show False using a by blast
  qed
  then show "\<forall>c \<in> set s. is_space c" by (simp only: dropWhile_eq_Nil_conv)
next
  assume "\<forall>c \<in> set s. is_space c"
  then have "dropWhile is_space s = []" by (simp only: dropWhile_eq_Nil_conv)
  then have "py_strip s = rev (dropWhile is_space (rev []))" by (simp only: py_strip_def)
  then show "py_strip s = []" by simp
qed





text \<open>The greedy run of a class, longest first.\<close>

lemma iter_greedy_run:
  assumes step: "\<And>q d. step q d = (if q < length s \<and> P (s ! q) then [(Suc q, d)] else [])"
  shows "length s - p \<le> n \<Longrightarrow>
     iter_greedy step n p c =
       map (\<lambda>q. (q, c)) (rev [p ..< Suc (p + length (takeWhile P (drop p s)))])"
proof (induction n arbitrary: p)
  case 0
  then have "drop p s = []" by simp
  then show ?case by simp
next
  case (Suc n)
  show ?case
  proof (cases "p < length s \<and> P (s ! p)")
    case True
    then have d: "drop p s = s ! p # drop (Suc p) s" by (simp add: Cons_nth_drop_Suc)
    have k: "length (takeWhile P (drop p s)) = Suc (length (takeWhile P (drop (Suc p) s)))"
      using True by (simp add: d)
    let ?k = "length (takeWhile P (drop (Suc p) s))"
    have "step p c = [(Suc p, c)]" using True by (simp add: step)
    then have "iter_greedy step (Suc n) p c = iter_greedy step n (Suc p) c @ [(p, c)]" by simp
    also have "iter_greedy step n (Suc p) c =
        map (\<lambda>q. (q, c)) (rev [Suc p ..< Suc (Suc p + ?k)])"
      using Suc.prems by (intro Suc.IH) simp
    finally have a: "iter_greedy step (Suc n) p c =
        map (\<lambda>q. (q, c)) (rev [Suc p ..< Suc (Suc p + ?k)]) @ [(p, c)]" .
    have "[p ..< Suc (p + Suc ?k)] = p # [Suc p ..< Suc (p + Suc ?k)]"
      by (rule upt_conv_Cons) simp
    then have "map (\<lambda>q. (q, c)) (rev [p ..< Suc (p + Suc ?k)]) =
        map (\<lambda>q. (q, c)) (rev [Suc p ..< Suc (Suc p + ?k)]) @ [(p, c)]"
      by (simp only: rev.simps map_append list.map add_Suc_right add_Suc)
    with a show ?thesis unfolding k by (simp only:)
  next
    case False
    then have "step p c = []" by (simp add: step)
    then have r: "iter_greedy step (Suc n) p c = [(p, c)]" by simp
    have "takeWhile P (drop p s) = []"
    proof (cases "p < length s")
      case True
      with False have "\<not> P (s ! p)" by simp
      with True show ?thesis by (simp add: Cons_nth_drop_Suc[symmetric])
    next
      case False
      then show ?thesis by simp
    qed
    with r show ?thesis by simp
  qed
qed

lemma rmatch_star_class:
  "rmatch (Star (Chr P)) s p c =
     map (\<lambda>q. (q, c)) (rev [p ..< Suc (p + length (takeWhile P (drop p s)))])"
proof -
  have "\<And>q d. rmatch (Chr P) s q d = (if q < length s \<and> P (s ! q) then [(Suc q, d)] else [])"
    by simp
  from iter_greedy_run[where step = "rmatch (Chr P) s" and s = s and P = P, OF this,
      of p "length s - p" c]
  show ?thesis by (simp only: rmatch.simps le_refl)
qed





text \<open>Matches of a run of characters of one class.\<close>

lemma iter_greedy_class:
  assumes step: "\<And>q d. step q d = (if q < length s \<and> T (s ! q) then [(Suc q, d)] else [])"
  shows "(e, c') \<in> set (iter_greedy step n p c) \<Longrightarrow>
     p \<le> e \<and> (\<forall>i. p \<le> i \<and> i < e \<longrightarrow> i < length s \<and> T (s ! i))"
proof (induction n arbitrary: p c)
  case 0
  then show ?case by auto
next
  case (Suc n)
  show ?case
  proof (cases "p < length s \<and> T (s ! p)")
    case False
    then have "step p c = []" by (simp add: step)
    with Suc.prems show ?thesis by auto
  next
    case True
    then have "step p c = [(Suc p, c)]" by (simp add: step)
    with Suc.prems have "(e, c') \<in> set (iter_greedy step n (Suc p) c) \<or> (e, c') = (p, c)"
      by auto
    then show ?thesis
    proof
      assume "(e, c') \<in> set (iter_greedy step n (Suc p) c)"
      from Suc.IH[OF this] have ih: "Suc p \<le> e"
        "\<And>i. Suc p \<le> i \<Longrightarrow> i < e \<Longrightarrow> i < length s \<and> T (s ! i)" by auto
      have "i < length s \<and> T (s ! i)" if "p \<le> i" "i < e" for i
      proof (cases "i = p")
        case True
        with \<open>p < length s \<and> T (s ! p)\<close> show ?thesis by simp
      next
        case False
        with that have "Suc p \<le> i" by simp
        from ih(2)[OF this that(2)] show ?thesis .
      qed
      with ih(1) show ?thesis by auto
    next
      assume "(e, c') = (p, c)"
      then show ?thesis by auto
    qed
  qed
qed

lemma plus_class_match:
  assumes "(e, c') \<in> set (rmatch (rplus (Chr T)) s p c)"
  shows "p < e \<and> (\<forall>i. p \<le> i \<and> i < e \<longrightarrow> i < length s \<and> T (s ! i))"
proof -
  from assms have t: "p < length s \<and> T (s ! p)"
    and m: "(e, c') \<in> set (iter_greedy (rmatch (Chr T) s) (length s - Suc p) (Suc p) c)"
    by (auto simp: rplus_def split: if_splits)
  have "\<And>q d. rmatch (Chr T) s q d = (if q < length s \<and> T (s ! q) then [(Suc q, d)] else [])"
    by simp
  from iter_greedy_class[OF this m] have ih: "Suc p \<le> e"
    "\<And>i. Suc p \<le> i \<Longrightarrow> i < e \<Longrightarrow> i < length s \<and> T (s ! i)" by auto
  have "i < length s \<and> T (s ! i)" if "p \<le> i" "i < e" for i
  proof (cases "i = p")
    case True
    with t show ?thesis by simp
  next
    case False
    with that have "Suc p \<le> i" by simp
    from ih(2)[OF this that(2)] show ?thesis .
  qed
  with ih(1) show ?thesis by auto
qed













section \<open>The well-formed outline block\<close>

text \<open>The five segments of the block: their lengths, their characters, what is left after them.\<close>

lemma block_lengths [simp]:
  "length block_head = 11" "length block_mid = 10" "length block_tail = 27"
  by (simp_all add: block_head_def block_mid_def block_tail_def)

lemma wfb_length: "length (well_formed_block t u) = 48 + length t + length u"
  by (simp add: well_formed_block_def)

lemma wfb_nth_head: "i < 11 \<Longrightarrow> well_formed_block t u ! i = block_head ! i"
  by (simp add: well_formed_block_def nth_append)

lemma wfb_nth_title: "j < length t \<Longrightarrow> well_formed_block t u ! (11 + j) = t ! j"
  by (simp add: well_formed_block_def nth_append)

lemma wfb_nth_mid: "j < 10 \<Longrightarrow> well_formed_block t u ! (11 + length t + j) = block_mid ! j"
  by (simp add: well_formed_block_def nth_append)

lemma wfb_nth_summary: "j < length u \<Longrightarrow> well_formed_block t u ! (21 + length t + j) = u ! j"
  by (simp add: well_formed_block_def nth_append)

lemma wfb_nth_tail:
  "j < 27 \<Longrightarrow> well_formed_block t u ! (21 + length t + length u + j) = block_tail ! j"
  by (simp add: well_formed_block_def nth_append)








text \<open>Where a character of the block comes from.\<close>

lemma wfb_cases:
  assumes "i < length (well_formed_block t u)"
  obtains (head) "i < 11"
    | (title) j where "i = 11 + j" "j < length t"
    | (mid) j where "i = 11 + length t + j" "j < 10"
    | (summary) j where "i = 21 + length t + j" "j < length u"
    | (tail) j where "i = 21 + length t + length u + j" "j < 27"
proof -
  from assms have "i < 48 + length t + length u" by (simp add: wfb_length)
  then consider "i < 11" | "11 \<le> i \<and> i < 11 + length t"
    | "11 + length t \<le> i \<and> i < 21 + length t"
    | "21 + length t \<le> i \<and> i < 21 + length t + length u"
    | "21 + length t + length u \<le> i \<and> i < 48 + length t + length u"
    by linarith
  then show thesis
  proof cases
    case 1
    then show ?thesis by (rule head)
  next
    case 2
    then have "i = 11 + (i - 11)" "i - 11 < length t" by auto
    then show ?thesis by (rule title)
  next
    case 3
    then have "i = 11 + length t + (i - (11 + length t))" "i - (11 + length t) < 10" by auto
    then show ?thesis by (rule mid)
  next
    case 4
    then have "i = 21 + length t + (i - (21 + length t))" "i - (21 + length t) < length u"
      by auto
    then show ?thesis by (rule summary)
  next
    case 5
    then have "i = 21 + length t + length u + (i - (21 + length t + length u))"
      "i - (21 + length t + length u) < 27" by auto
    then show ?thesis by (rule tail)
  qed
qed

text \<open>The colons and the newlines of the block stand in its fixed parts only.\<close>

lemma nth_in_literal:
  "i < length xs \<Longrightarrow> xs ! i = c \<Longrightarrow> i \<in> set (filter (\<lambda>k. xs ! k = c) [0 ..< length xs])"
  by simp





lemma tail_newline: "i < 27 \<Longrightarrow> block_tail ! i = CHR 0x0A \<Longrightarrow> i = 0"
proof -
  have "filter (\<lambda>k. block_tail ! k = CHR 0x0A) [0 ..< length block_tail] = [0]" by code_simp
  then show "i < 27 \<Longrightarrow> block_tail ! i = CHR 0x0A \<Longrightarrow> i = 0"
    using nth_in_literal[of i block_tail "CHR 0x0A"] by simp
qed

lemma mid_newline: "i < 10 \<Longrightarrow> block_mid ! i = CHR 0x0A \<Longrightarrow> i = 0"
proof -
  have "filter (\<lambda>k. block_mid ! k = CHR 0x0A) [0 ..< length block_mid] = [0]" by code_simp
  then show "i < 10 \<Longrightarrow> block_mid ! i = CHR 0x0A \<Longrightarrow> i = 0"
    using nth_in_literal[of i block_mid "CHR 0x0A"] by simp
qed

lemma head_newline: "i < 11 \<Longrightarrow> block_head ! i \<noteq> CHR 0x0A"
proof -
  have "filter (\<lambda>k. block_head ! k = CHR 0x0A) [0 ..< length block_head] = []" by code_simp
  then show "i < 11 \<Longrightarrow> block_head ! i \<noteq> CHR 0x0A"
    using nth_in_literal[of i block_head "CHR 0x0A"] by auto
qed

lemma wfb_newline:
  assumes "CHR 0x0A \<notin> set t" "CHR 0x0A \<notin> set u"
    and "i < length (well_formed_block t u)" "well_formed_block t u ! i = CHR 0x0A"
  shows "i = 11 + length t \<or> i = 21 + length t + length u"
  using assms(3)
proof (cases rule: wfb_cases)
  case head
  with assms(4) show ?thesis using head_newline[of i] by (simp add: wfb_nth_head)
next
  case (title j)
  with assms(4) have "t ! j = CHR 0x0A" by (simp add: wfb_nth_title)
  with title(2) assms(1) show ?thesis by (metis nth_mem)
next
  case (mid j)
  with assms(4) show ?thesis using mid_newline[of j] by (simp add: wfb_nth_mid)
next
  case (summary j)
  with assms(4) have "u ! j = CHR 0x0A" by (simp add: wfb_nth_summary)
  with summary(2) assms(2) show ?thesis by (metis nth_mem)
next
  case (tail j)
  with assms(4) show ?thesis using tail_newline[of j] by (simp add: wfb_nth_tail)
qed

























section \<open>Properties of parse_outline\<close>

lemma count_of_nonneg: "0 \<le> count_of d"
  by (simp add: count_of_def split: option.splits)

lemma strict_word_count_nonneg: "0 \<le> strict_word_count block"
  by (simp add: strict_word_count_def count_of_nonneg split: option.splits)

lemma lenient_word_count_nonneg: "0 \<le> lenient_word_count rest"
  by (simp add: lenient_word_count_def count_of_nonneg split: option.splits)

lemma strict_entry_fields:
  "strict_entry outline cm = Inr c \<Longrightarrow> 0 \<le> word_count c \<and> 0 \<le> chapter_num c"
  by (auto simp: strict_entry_def strict_word_count_nonneg split: prod.splits option.splits sum.splits)

lemma lenient_entry_fields:
  "lenient_entry ib = Some c \<Longrightarrow> 0 \<le> word_count c \<and> 1 \<le> chapter_num c"
  by (auto simp: lenient_entry_def lenient_word_count_nonneg split: prod.splits if_splits)

lemma collect_fields:
  "collect f xs = Inr ys \<Longrightarrow> y \<in> set ys \<Longrightarrow> \<exists>x \<in> set xs. f x = Inr y"
proof (induction xs arbitrary: ys)
  case Nil
  then show ?case by simp
next
  case (Cons x xs)
  from Cons.prems(1) obtain z zs where z: "f x = Inr z" "collect f xs = Inr zs" "ys = z # zs"
    by (auto split: sum.splits)
  with Cons.prems(2) Cons.IH[OF z(2)] show ?case by auto
qed






lemma star_class_mem:
  "(e, c) \<in> set (rmatch (Star (Chr P)) s p c0) \<Longrightarrow>
     c = c0 \<and> p \<le> e \<and> e \<le> p + length (takeWhile P (drop p s))"
  by (simp only: rmatch_star_class) auto

lemma plus_class_caps:
  "(e, c) \<in> set (rmatch (rplus (Chr T)) s p c0) \<Longrightarrow> c = c0"
proof -
  assume "(e, c) \<in> set (rmatch (rplus (Chr T)) s p c0)"
  then have "(e, c) \<in> set (rmatch (Star (Chr T)) s (Suc p) c0)"
    by (auto simp add: rplus_def simp del: rmatch.simps(5) split: if_splits)
  from star_class_mem[OF this] show ?thesis by simp
qed














text \<open>A header number of fewer than 4300 digits is within the limit.\<close>

lemma digit_value: "is_digit c \<Longrightarrow> (of_char c :: nat) - 48 \<le> 9"
  by (auto simp: is_digit_def Let_def)

lemma digits_value_bound:
  "list_all is_digit ds \<Longrightarrow>
   foldl (\<lambda>n c. 10 * n + (of_char c - 48)) (acc :: nat) ds < (acc + 1) * 10 ^ length ds"
proof (induction ds arbitrary: acc)
  case Nil
  then show ?case by simp
next
  case (Cons d ds)
  then have d: "(of_char d :: nat) - 48 \<le> 9" and ds: "list_all is_digit ds"
    by (simp_all add: digit_value)
  from Cons.IH[OF ds, of "10 * acc + (of_char d - 48)"]
  have "foldl (\<lambda>n c. 10 * n + (of_char c - 48)) (10 * acc + (of_char d - 48)) ds <
      (10 * acc + (of_char d - 48) + 1) * 10 ^ length ds" .
  also have "\<dots> \<le> (10 * (acc + 1)) * 10 ^ length ds"
    using d by (intro mult_right_mono) simp_all
  finally show ?case by (simp add: algebra_simps)
qed

lemma str_nat_length: "0 < d \<Longrightarrow> n < 10 ^ d \<Longrightarrow> length (str_nat n) \<le> d"
proof (induction n arbitrary: d rule: str_nat.induct)
  case (1 n)
  show ?case
  proof (cases "n < 10")
    case True
    with "1.prems"(1) show ?thesis by (subst str_nat.simps) simp
  next
    case False
    have "1 < d"
    proof (rule ccontr)
      assume "\<not> 1 < d"
      with "1.prems"(1) have "d = 1" by simp
      with "1.prems"(2) False show False by simp
    qed
    then obtain d' where d': "d = Suc d'" "0 < d'" by (cases d) auto
    from "1.prems"(2) d'(1) have "n div 10 < 10 ^ d'" by (simp add: less_mult_imp_div_less mult.commute)
    from "1.IH"[OF False d'(2) this] have "length (str_nat (n div 10)) \<le> d'" .
    with False d'(1) show ?thesis by (subst str_nat.simps) simp
  qed
qed

lemma short_number_in_limit:
  assumes "num \<noteq> []" "list_all is_digit num" "length num < int_max_str_digits"
  shows "number_in_limit num"
proof -
  let ?n = "foldl (\<lambda>n c. 10 * n + (of_char c - 48)) (0 :: nat) num"
  from assms have i: "py_int num = Some ?n" by (simp add: py_int_def)
  from digits_value_bound[OF assms(2), of 0] have "?n < 10 ^ length num" by simp
  then have "?n + 1 \<le> 10 ^ length num" by simp
  also have "(10::nat) ^ length num < 10 ^ Suc (length num)" by simp
  finally have "?n + 1 < 10 ^ Suc (length num)" .
  from str_nat_length[OF _ this] have "length (str_nat (?n + 1)) \<le> Suc (length num)" by simp
  with assms(3) have "\<not> int_max_str_digits < length (str_nat (?n + 1))" by simp
  then have "\<not> isl (py_str_nat (?n + 1))" by (simp add: py_str_nat_def)
  with i show ?thesis by (simp add: number_in_limit_def)
qed

lemma strict_entry_too_many_digits:
  "int_max_str_digits < length num \<Longrightarrow> strict_entry s (num, t) = Inl (ValueError num)"
  by (simp add: strict_entry_def py_int_def)

lemma lenient_parse_fields:
  "c \<in> set (lenient_parse_outline outline) \<Longrightarrow> 0 \<le> word_count c \<and> 0 \<le> chapter_num c"
proof -
  assume "c \<in> set (lenient_parse_outline outline)"
  then obtain ib where "lenient_entry ib = Some c"
    by (auto simp: lenient_parse_outline_def List.map_filter_def)
  from lenient_entry_fields[OF this] show ?thesis by simp
qed

lemma parse_outline_fields:
  assumes "parse_outline outline = Inr chs"
  shows "sorted (map chapter_num chs) \<and> (\<forall>c \<in> set chs. 0 \<le> word_count c \<and> 0 \<le> chapter_num c)"
proof -
  from assms obtain chapters where c: "collect (strict_entry outline) (chapter_matches outline) = Inr chapters"
    and chs: "chs = sort_key chapter_num (if chapters = [] then lenient_parse_outline outline else chapters)"
    by (auto simp: parse_outline_def split: sum.splits)
  have s: "sorted (map chapter_num chs)" unfolding chs by simp
  have "0 \<le> word_count x \<and> 0 \<le> chapter_num x" if "x \<in> set chs" for x
  proof (cases "chapters = []")
    case True
    with that chs have "x \<in> set (lenient_parse_outline outline)" by simp
    then show ?thesis by (rule lenient_parse_fields)
  next
    case False
    with that chs have "x \<in> set chapters" by simp
    from collect_fields[OF c this] obtain cm where "strict_entry outline cm = Inr x" by blast
    then show ?thesis by (rule strict_entry_fields)
  qed
  with s show ?thesis by blast
qed






text \<open>
  An input on which only the un-numbered header \<open>Chapter:\<close> matches makes the loop look
  for \<open>Chapter 1:\<close>, which is not in the text; the fallback
  \<open>outline.split(...)[0].split(...)[1]\<close> then raises \<open>IndexError\<close>.
\<close>

theorem parse_outline_unnumbered_header_raises:
  "parse_outline ''Chapter: Foo\<newline>Summary: bar'' = Inl IndexError"
  by code_simp



text \<open>
  Claim C7, as stated, fails for the title and for the word count: the strict path
  takes whatever stands between the header and the next line, also nothing, and
  whatever number follows \<open>Estimated word count:\<close>, also 0.
\<close>

theorem parse_outline_empty_title_zero_count:
  "parse_outline ''Chapter 1:\<newline>Estimated word count: 0'' =
     Inr [\<lparr>chapter_num = 1, title = [], summary = [], word_count = 0\<rparr>]"
  by code_simp

text \<open>
  Claim C7, amended. Whenever \<open>parse_outline\<close> returns, the sequence is sorted in
  ascending order of chapter number, and every entry has a non-negative chapter number
  and a non-negative word count. The word count is 3000 when no count is found (in
  both paths); the title \<open>Chapter N\<close> is only used by the lenient fallback, for a block
  in which no colon or dash starts a title. A title may be empty.
\<close>

theorem parse_outline_invariant:
  "(parse_outline outline = Inr chs \<longrightarrow>
      sorted (map chapter_num chs) \<and>
      (\<forall>c \<in> set chs. 0 \<le> word_count c \<and> 0 \<le> chapter_num c)) \<and>
   (re_search word_count_pattern block = None \<longrightarrow> strict_word_count block = 3000) \<and>
   (re_search lenient_word_count_pattern block = None \<longrightarrow> lenient_word_count block = 3000) \<and>
   (re_search lenient_title_pattern block = None \<longrightarrow>
      lenient_title i block = ''Chapter '' @ str_nat (i + 1))"
  using parse_outline_fields[of outline chs]
  by (simp add: strict_word_count_def lenient_word_count_def lenient_title_def)

theorem parse_outline_invariant_witness:
  "parse_outline ''Chapter 2: B\<newline>Summary: b\<newline>Estimated word count: 1,500\<newline>Chapter 1: A\<newline>Summary: a'' =
     Inr [\<lparr>chapter_num = 1, title = ''A'', summary = ''a'', word_count = 3000\<rparr>,
          \<lparr>chapter_num = 2, title = ''B'', summary = ''b'', word_count = 1500\<rparr>] \<and>
   sorted (map chapter_num
     [\<lparr>chapter_num = 1, title = ''A'', summary = ''a'', word_count = 3000\<rparr>,
      \<lparr>chapter_num = 2, title = ''B'', summary = ''b'', word_count = 1500\<rparr>]) \<and>
   re_search word_count_pattern ''Chapter 1: A\<newline>Summary: a'' = None \<and>
   strict_word_count ''Chapter 1: A\<newline>Summary: a'' = 3000 \<and>
   re_search lenient_word_count_pattern ''no count'' = None \<and>
   lenient_word_count ''no count'' = 3000 \<and>
   re_search lenient_title_pattern ''no title'' = None \<and>
   lenient_title 4 ''no title'' = ''Chapter 5''"
proof -
  have v: "parse_outline ''Chapter 2: B\<newline>Summary: b\<newline>Estimated word count: 1,500\<newline>Chapter 1: A\<newline>Summary: a'' =
     Inr [\<lparr>chapter_num = 1, title = ''A'', summary = ''a'', word_count = 3000\<rparr>,
          \<lparr>chapter_num = 2, title = ''B'', summary = ''b'', word_count = 1500\<rparr>]"
    by code_simp
  have h: "re_search word_count_pattern ''Chapter 1: A\<newline>Summary: a'' = None"
    "re_search lenient_word_count_pattern ''no count'' = None"
    "re_search lenient_title_pattern ''no title'' = None"
    by code_simp+
  have s: "str_nat (4 + 1) = ''5''" by code_simp
  from parse_outline_invariant[of
      "''Chapter 2: B\<newline>Summary: b\<newline>Estimated word count: 1,500\<newline>Chapter 1: A\<newline>Summary: a''"
      "[\<lparr>chapter_num = 1, title = ''A'', summary = ''a'', word_count = 3000\<rparr>,
        \<lparr>chapter_num = 2, title = ''B'', summary = ''b'', word_count = 1500\<rparr>]"
      "''Chapter 1: A\<newline>Summary: a''"] v h(1)
  have a: "sorted (map chapter_num
     [\<lparr>chapter_num = 1, title = ''A'', summary = ''a'', word_count = 3000\<rparr>,
      \<lparr>chapter_num = 2, title = ''B'', summary = ''b'', word_count = 1500\<rparr>])"
    "strict_word_count ''Chapter 1: A\<newline>Summary: a'' = 3000"
    by blast+
  from parse_outline_invariant[of _ _ "''no count''"] h(2)
  have b: "lenient_word_count ''no count'' = 3000" by blast
  from parse_outline_invariant[of _ _ "''no title''" 4] h(3) s
  have c: "lenient_title 4 ''no title'' = ''Chapter 5''" by simp
  from v h a b c show ?thesis by simp
qed

section \<open>Properties of calculate_reading_statistics\<close>

lemma no_word_match:
  assumes "\<forall>x \<in> set s. \<not> is_word_char x"
  shows "rmatch word_pattern s p c = []"
proof -
  have "rmatch (Chr is_word_char) s q d = []" for q d
    using assms by auto
  then have "rmatch (Seq (rplus (Chr is_word_char)) Bnd) s q d = []" for q d
    by (simp add: rplus_def)
  then show ?thesis by (simp add: word_pattern_def)
qed

lemma finditer_from_none:
  assumes "\<And>q. match_at r s q = None"
  shows "finditer_from r s p = []"
proof (induction "Suc (length s) - p" arbitrary: p rule: less_induct)
  case less
  show ?case
  proof (cases "length s < p")
    case True
    then show ?thesis by (subst finditer_from.simps) simp
  next
    case False
    then have "Suc (length s) - Suc p < Suc (length s) - p" by simp
    from less[OF this] assms[of p] False show ?thesis
      by (subst finditer_from.simps) simp
  qed
qed

lemma no_words:
  assumes "\<forall>x \<in> set s. \<not> is_word_char x"
  shows "finditer word_pattern s = []"
  unfolding finditer_def
  by (rule finditer_from_none) (simp add: match_at_def no_word_match[OF assms])

text \<open>Every character outside the matches of a class run is in a piece of the split.\<close>

lemma class_runs_mono: "class_runs T s p ms \<Longrightarrow> q \<le> p \<Longrightarrow> class_runs T s q ms"
  by (cases ms) auto

lemma finditer_class_runs:
  "class_runs T s p (finditer_from (rplus (Chr T)) s p)"
proof (induction "Suc (length s) - p" arbitrary: p rule: less_induct)
  case less
  show ?case
  proof (cases "length s < p")
    case True
    then show ?thesis by (subst finditer_from.simps) simp
  next
    case False
    show ?thesis
    proof (cases "match_at (rplus (Chr T)) s p")
      case None
      from False have "Suc (length s) - Suc p < Suc (length s) - p" by simp
      from less[OF this] have "class_runs T s p (finditer_from (rplus (Chr T)) s (Suc p))"
        by (rule class_runs_mono) simp
      with None False show ?thesis by (subst finditer_from.simps) simp
    next
      case (Some m)
      obtain a e c where m: "m = (a, e, c)" by (cases m)
      from Some m have ap: "a = p" and mem: "(e, c) \<in> set (rmatch (rplus (Chr T)) s p Map.empty)"
        by (auto simp: match_at_def split: list.splits)
      from plus_class_match[OF mem] have pe: "p < e"
        and cl: "\<forall>i. p \<le> i \<and> i < e \<longrightarrow> i < length s \<and> T (s ! i)" by auto
      have "p \<le> e - 1 \<and> e - 1 < e" using pe by arith
      with cl have "e - 1 < length s" by blast
      with pe have "e \<le> length s" by arith
      then have "Suc (length s) - e < Suc (length s) - p" using pe by simp
      from less[OF this] have "class_runs T s e (finditer_from (rplus (Chr T)) s e)" .
      with Some m ap pe cl False show ?thesis
        by (subst finditer_from.simps) simp
    qed
  qed
qed

lemma split_at_cover:
  "class_runs T s prev ms \<Longrightarrow> prev \<le> i \<Longrightarrow> i < length s \<Longrightarrow>
     T (s ! i) \<or> (\<exists>piece \<in> set (split_at s prev ms). s ! i \<in> set piece)"
proof (induction ms arbitrary: prev)
  case Nil
  then have "drop prev s ! (i - prev) = s ! i" "i - prev < length (drop prev s)"
    by simp_all
  then have "s ! i \<in> set (drop prev s)" by (metis nth_mem)
  then show ?case by simp
next
  case (Cons m ms)
  obtain a e c where m: "m = (a, e, c)" by (cases m)
  show ?case
  proof (cases "i < a")
    case True
    have "take (a - prev) (drop prev s) ! (i - prev) = s ! i"
      using True Cons.prems(2,3) by simp
    moreover have "i - prev < length (take (a - prev) (drop prev s))"
      using True Cons.prems(2,3) by auto
    ultimately have "s ! i \<in> set (take (a - prev) (drop prev s))"
      by (metis nth_mem)
    with m show ?thesis by simp
  next
    case False
    show ?thesis
    proof (cases "i < e")
      case True
      with False Cons.prems(1) m have "T (s ! i)" by simp
      then show ?thesis ..
    next
      case ge: False
      from Cons.prems(1) m have "class_runs T s e ms" by simp
      from Cons.IH[OF this _ Cons.prems(3)] ge m show ?thesis by auto
    qed
  qed
qed

lemma no_sentences_chars:
  assumes "sentences_of_text s = []"
  shows "\<forall>x \<in> set s. is_terminator x \<or> is_space x"
proof
  fix x assume "x \<in> set s"
  then obtain i where i: "i < length s" "s ! i = x" by (auto simp: in_set_conv_nth)
  from assms have blank: "\<forall>piece \<in> set (re_split sentence_split_pattern s). py_strip piece = []"
    by (simp add: sentences_of_text_def filter_empty_conv)
  have "class_runs is_terminator s 0 (finditer sentence_split_pattern s)"
    unfolding finditer_def sentence_split_pattern_def by (rule finditer_class_runs)
  from split_at_cover[OF this _ i(1)]
  have "is_terminator (s ! i) \<or> (\<exists>piece \<in> set (re_split sentence_split_pattern s). s ! i \<in> set piece)"
    by (simp add: re_split_def)
  with blank i(2) show "is_terminator x \<or> is_space x"
    by (auto simp: py_strip_empty_iff)
qed

lemma lower_not_word:
  assumes "is_terminator x \<or> is_space x"
  shows "\<not> is_word_char (lower_char x)"
proof -
  from assms have "(of_char x :: nat) \<in> {46, 33, 63} \<or> is_space x"
    by (auto simp: is_terminator_def)
  then have n: "(of_char x :: nat) \<in> {9, 10, 11, 12, 13, 28, 29, 30, 31, 32, 33, 46, 63, 133, 160}"
    by (auto simp: is_space_def Let_def)
  then have "lower_char x = x" by (auto simp: lower_char_def Let_def)
  with n show ?thesis by (auto simp: is_word_char_def Let_def)
qed

lemma no_sentences_no_words:
  assumes "sentences_of_text s = []"
  shows "words_of_text s = []"
proof -
  have "\<forall>x \<in> set (py_lower s). \<not> is_word_char x"
    using no_sentences_chars[OF assms] lower_not_word by (auto simp: py_lower_def)
  from no_words[OF this] show ?thesis by (simp add: words_of_text_def)
qed

text \<open>
  Claim C8. \<open>calculate_reading_statistics\<close> never raises: both divisions are guarded.
  For a text without sentences (every piece between runs of \<open>.\<close>, \<open>!\<close>, \<open>?\<close> is blank),
  in particular for the empty string, it returns the all-zero statistics; such a text
  has no words either.
\<close>

theorem reading_statistics_no_sentences:
  "(\<exists>st. calculate_reading_statistics s = Inr st) \<and>
   (sentences_of_text s = [] \<longrightarrow> calculate_reading_statistics s = Inr zero_stats) \<and>
   calculate_reading_statistics [] = Inr zero_stats"
proof -
  have total: "\<exists>st. calculate_reading_statistics t = Inr st" for t
    by (auto simp: calculate_reading_statistics_def Let_def py_truediv_def)
  have zero: "calculate_reading_statistics t = Inr zero_stats" if "sentences_of_text t = []" for t
    using that no_sentences_no_words[OF that]
    by (simp add: calculate_reading_statistics_def Let_def zero_stats_def)
  have "sentences_of_text [] = []" by code_simp
  from zero[OF this] total zero show ?thesis by blast
qed


theorem reading_statistics_no_sentences_witness:
  "sentences_of_text '' .. !? '' = [] \<and>
   calculate_reading_statistics '' .. !? '' = Inr zero_stats"
proof -
  have h: "sentences_of_text '' .. !? '' = []" by code_simp
  with reading_statistics_no_sentences[of "'' .. !? ''"] show ?thesis by blast
qed

end
